theory Spec2Isabelle
  imports Complex_Main
begin

section \<open>Numeric carriers\<close>

text \<open>
  The program computes with \<^verbatim>\<open>double\<close>. A \<^verbatim>\<open>tf2::Vector3\<close> or \<^verbatim>\<open>Eigen::Vector3d\<close> is a
  triple and a \<^verbatim>\<open>tf2::Quaternion\<close> or \<^verbatim>\<open>Eigen::Vector4d\<close> a quadruple in the order
  \<open>(x, y, z, w)\<close>. A \<^verbatim>\<open>ros::Time\<close> and a \<^verbatim>\<open>ros::Duration\<close> are integers of nanoseconds.

  The vector accumulators of \<open>WeightedMean\<close> are kept over an open type \<open>'d\<close> of double
  values whose sum, product and quotient are not interpreted: they round, overflow and give
  not-a-number as the machine does, and nothing is proved from laws the machine arithmetic
  does not have. The two zeros of the machine are one value of \<open>'d\<close>, so that equality with
  \<open>0\<close> is the test \<^verbatim>\<open>== 0.0\<close>. Everywhere else a double is read as a real number (no
  rounding, no overflow).
\<close>

type_synonym Vector3 = "real \<times> real \<times> real"
type_synonym Quaternion = "real \<times> real \<times> real \<times> real"
type_synonym Time = int
type_synonym Duration = int

definition vec3_zero :: Vector3 where
  "vec3_zero = (0, 0, 0)"

definition quat_identity :: Quaternion where
  "quat_identity = (0, 0, 0, 1)"

fun vec3_add :: "'a::plus \<times> 'a \<times> 'a \<Rightarrow> 'a \<times> 'a \<times> 'a \<Rightarrow> 'a \<times> 'a \<times> 'a" where
  "vec3_add (a, b, c) (a', b', c') = (a + a', b + b', c + c')"

fun vec3_scale :: "'a::times \<times> 'a \<times> 'a \<Rightarrow> 'a \<Rightarrow> 'a \<times> 'a \<times> 'a" where
  "vec3_scale (a, b, c) k = (a * k, b * k, c * k)"

fun vec3_div :: "'a::inverse \<times> 'a \<times> 'a \<Rightarrow> 'a \<Rightarrow> 'a \<times> 'a \<times> 'a" where
  "vec3_div (a, b, c) k = (a / k, b / k, c / k)"

fun quat_scale :: "real \<Rightarrow> Quaternion \<Rightarrow> Quaternion" where
  "quat_scale k (a, b, c, d) = (k * a, k * b, k * c, k * d)"

section \<open>WeightedMean (filters.cpp)\<close>

text \<open>
  The members of the class. \<open>m_quats\<close> is the \<open>4 \<times> n\<close> matrix of the source, kept as
  the list of its columns.
\<close>

record 'd WeightedMean =
  m_vectorWeightedSum :: "'d \<times> 'd \<times> 'd"
  m_vectorWeights :: 'd
  m_quats :: "Quaternion list"

text \<open>
  \<^verbatim>\<open>m_vectorWeightedSum += vec * weight; m_vectorWeights += weight;\<close> with the arithmetic of
  \<open>'d\<close>, each component on its own.
\<close>

definition WeightedMean_addVec3 ::
  "'d::{plus, times} WeightedMean \<Rightarrow> 'd \<times> 'd \<times> 'd \<Rightarrow> 'd \<Rightarrow> 'd WeightedMean" where
  "WeightedMean_addVec3 s vec weight =
     s\<lparr>m_vectorWeightedSum := vec3_add (m_vectorWeightedSum s) (vec3_scale vec weight),
       m_vectorWeights := m_vectorWeights s + weight\<rparr>"

definition WeightedMean_addQuat :: "'d WeightedMean \<Rightarrow> Quaternion \<Rightarrow> real \<Rightarrow> 'd WeightedMean" where
  "WeightedMean_addQuat s quat weight = s\<lparr>m_quats := m_quats s @ [quat_scale weight quat]\<rparr>"

definition WeightedMean_reset :: "'d::zero WeightedMean \<Rightarrow> 'd WeightedMean" where
  "WeightedMean_reset s = s\<lparr>m_vectorWeightedSum := (0, 0, 0), m_vectorWeights := 0, m_quats := []\<rparr>"

text \<open>
  The test \<^verbatim>\<open>m_vectorWeights == 0.0\<close>, and the quotient of the sum by the weights, each
  component on its own.
\<close>

definition weightedMeanVec3 :: "'d::{zero, inverse} WeightedMean \<Rightarrow> 'd \<times> 'd \<times> 'd" where
  "weightedMeanVec3 s =
     (if m_vectorWeights s = 0 then (0, 0, 0)
      else vec3_div (m_vectorWeightedSum s) (m_vectorWeights s))"

text \<open>
  \<open>weightedMeanQuat\<close> hands the \<open>4 \<times> 4\<close> matrix \<open>m_quats * m_quats\<^sup>T\<close> to Eigen's
  \<^verbatim>\<open>SelfAdjointEigenSolver\<close>, a library routine. The matrix is computed here; the solver is a
  parameter of the model, giving the eigenvalues and the eigenvector columns.
\<close>

type_synonym Matrix4 = "real list list"

record EigenSolver =
  eigenvalues :: "real list"
  eigenvectors :: "nat \<Rightarrow> Quaternion"

fun quat_components :: "Quaternion \<Rightarrow> real list" where
  "quat_components (a, b, c, d) = [a, b, c, d]"

definition quats_product :: "Quaternion list \<Rightarrow> Matrix4" where
  "quats_product qs =
     map (\<lambda>i. map (\<lambda>j. sum_list (map (\<lambda>q. quat_components q ! i * quat_components q ! j) qs))
       [0..<4]) [0..<4]"

text \<open>
  The search for the eigenvalue of largest absolute value: the loop of the source over
  \<open>i = 0, 1, ...\<close>, with \<open>index\<close> and \<open>maxVal\<close> as accumulators, starting from \<open>0\<close> and \<open>-1\<close>.
\<close>

fun largest_eigenvalue :: "real list \<Rightarrow> nat \<Rightarrow> nat \<Rightarrow> real \<Rightarrow> nat" where
  "largest_eigenvalue [] i index maxVal = index"
| "largest_eigenvalue (ev # evs) i index maxVal =
     (if \<bar>ev\<bar> > maxVal then largest_eigenvalue evs (Suc i) i \<bar>ev\<bar>
      else largest_eigenvalue evs (Suc i) index maxVal)"

definition weightedMeanQuat :: "(Matrix4 \<Rightarrow> EigenSolver) \<Rightarrow> 'd WeightedMean \<Rightarrow> Quaternion" where
  "weightedMeanQuat solver s =
     (let sol = solver (quats_product (m_quats s));
          index = largest_eigenvalue (eigenvalues sol) 0 0 (- 1)
      in eigenvectors sol index)"

text \<open>
  An eigen-decomposition that is exact on diagonal matrices: the diagonal entries with the
  unit vectors. The matrix of an empty \<open>m_quats\<close> is the zero matrix, which is diagonal.
\<close>

definition unit_column :: "nat \<Rightarrow> Quaternion" where
  "unit_column i =
     (if i = 0 then (1, 0, 0, 0) else if i = 1 then (0, 1, 0, 0)
      else if i = 2 then (0, 0, 1, 0) else (0, 0, 0, 1))"

definition diagonal_solver :: "Matrix4 \<Rightarrow> EigenSolver" where
  "diagonal_solver A = \<lparr>eigenvalues = map (\<lambda>i. A ! i ! i) [0..<4], eigenvectors = unit_column\<rparr>"

text \<open>Feeding a list of weighted samples, one \<open>addVec3\<close> call each, in order.\<close>

fun addVec3_all ::
  "'d::{plus, times} WeightedMean \<Rightarrow> (('d \<times> 'd \<times> 'd) \<times> 'd) list \<Rightarrow> 'd WeightedMean" where
  "addVec3_all s [] = s"
| "addVec3_all s ((v, w) # rest) = addVec3_all (WeightedMean_addVec3 s v w) rest"

text \<open>
  An arithmetic that is not exact, to try the accumulators on: real numbers, with a sum in
  which a term of magnitude at most 1 is lost beside one of magnitude 16 or more, as a small
  term is lost beside a large one in the machine. Product and quotient are exact.
\<close>

datatype coarse = Coarse real

instantiation coarse :: "{zero, one, plus, times, inverse}"
begin

definition zero_coarse :: coarse where
  "zero_coarse = Coarse 0"

definition one_coarse :: coarse where
  "one_coarse = Coarse 1"

fun plus_coarse :: "coarse \<Rightarrow> coarse \<Rightarrow> coarse" where
  "plus_coarse (Coarse a) (Coarse b) =
     Coarse (if 16 \<le> \<bar>a\<bar> \<and> \<bar>b\<bar> \<le> 1 then a else if 16 \<le> \<bar>b\<bar> \<and> \<bar>a\<bar> \<le> 1 then b else a + b)"

fun times_coarse :: "coarse \<Rightarrow> coarse \<Rightarrow> coarse" where
  "times_coarse (Coarse a) (Coarse b) = Coarse (a * b)"

fun divide_coarse :: "coarse \<Rightarrow> coarse \<Rightarrow> coarse" where
  "divide_coarse (Coarse a) (Coarse b) = Coarse (a / b)"

fun inverse_coarse :: "coarse \<Rightarrow> coarse" where
  "inverse_coarse (Coarse a) = Coarse (inverse a)"

instance ..

end

section \<open>ExplonentialMovingAverageFilter (filters.cpp)\<close>

record ExplonentialMovingAverageFilter =
  m_alpha :: real
  m_timeout :: Duration
  m_scalarInitialized :: bool
  m_vecInitialized :: bool
  m_quatInitialized :: bool
  m_scalarAccu :: real
  m_vectorAccu :: Vector3
  m_quatAccu :: Quaternion
  m_timeOfLastValue :: Time

definition EMA_reset :: "ExplonentialMovingAverageFilter \<Rightarrow> ExplonentialMovingAverageFilter" where
  "EMA_reset s = s\<lparr>m_scalarInitialized := False, m_quatInitialized := False, m_vecInitialized := False\<rparr>"

text \<open>
  \<open>checkReinit\<close> reads the clock; the reading is the argument \<open>now\<close>. The source reads the
  clock a second time at the end of each \<open>add\<close>; that reading is the argument \<open>stamp\<close>.
\<close>

definition checkReinit :: "Time \<Rightarrow> ExplonentialMovingAverageFilter \<Rightarrow> ExplonentialMovingAverageFilter" where
  "checkReinit now s =
     (if m_timeout s = 0 then s
      else if now - m_timeOfLastValue s \<ge> m_timeout s then EMA_reset s
      else s)"

definition addScalar ::
  "Time \<Rightarrow> Time \<Rightarrow> ExplonentialMovingAverageFilter \<Rightarrow> real \<Rightarrow> ExplonentialMovingAverageFilter" where
  "addScalar now stamp s0 scalar =
     (let s = checkReinit now s0;
          s' = (if m_scalarInitialized s
                then s\<lparr>m_scalarAccu := (m_alpha s * scalar) + (1 - m_alpha s) * m_scalarAccu s\<rparr>
                else s\<lparr>m_scalarAccu := scalar, m_scalarInitialized := True\<rparr>)
      in s'\<lparr>m_timeOfLastValue := stamp\<rparr>)"



definition EMA_scalar :: "ExplonentialMovingAverageFilter \<Rightarrow> real" where
  "EMA_scalar s = m_scalarAccu s"

definition EMA_vec3 :: "ExplonentialMovingAverageFilter \<Rightarrow> Vector3" where
  "EMA_vec3 s = m_vectorAccu s"

definition EMA_quat :: "ExplonentialMovingAverageFilter \<Rightarrow> Quaternion" where
  "EMA_quat s = m_quatAccu s"

text \<open>
  Modelled from the spec: the member initialisers of the class stand in \<^verbatim>\<open>filters.h\<close>, which
  is not among the sources. The two-argument constructor of the source sets \<open>m_alpha\<close> and
  \<open>m_timeout\<close>; the other members start, as the spec words it, uninitialised with the
  defaults "zero scalar/vector, identity rotation".
\<close>

definition EMA_new :: "real \<Rightarrow> Duration \<Rightarrow> ExplonentialMovingAverageFilter" where
  "EMA_new alpha timeout =
     \<lparr>m_alpha = alpha, m_timeout = timeout, m_scalarInitialized = False, m_vecInitialized = False,
      m_quatInitialized = False, m_scalarAccu = 0, m_vectorAccu = vec3_zero,
      m_quatAccu = quat_identity, m_timeOfLastValue = 0\<rparr>"

text \<open>A filter that has blended two scalar samples, used as a concrete state below.\<close>

definition sample_filter :: ExplonentialMovingAverageFilter where
  "sample_filter =
     \<lparr>m_alpha = 1 / 2, m_timeout = 10, m_scalarInitialized = True, m_vecInitialized = True,
      m_quatInitialized = True, m_scalarAccu = 15, m_vectorAccu = (1, 2, 3),
      m_quatAccu = (1, 0, 0, 0), m_timeOfLastValue = 100\<rparr>"

section \<open>TransformGraph (transformgraph.cpp)\<close>

subsection \<open>The graph\<close>

text \<open>
  The declarations of \<^verbatim>\<open>transformgraph.h\<close> are not among the sources. The key type \<open>'k\<close>
  (\<^verbatim>\<open>MeasurementKey\<close>) and the transform type \<open>'t\<close> (\<^verbatim>\<open>tf2::Transform\<close>) are left open;
  the inversion of a transform, a library routine, is the parameter \<open>tinv\<close>.
\<close>

text \<open>
  Modelled from the spec: \<^verbatim>\<open>EdgeInfo\<close> (declared in \<^verbatim>\<open>transformgraph.h\<close>). An edge stores the
  measurement key and the transform.
\<close>

datatype ('k, 't) EdgeInfo = EdgeInfo (info_key: 'k) (info_transform: 't)

text \<open>
  Modelled from the spec: \<^verbatim>\<open>SensorData\<close> (declared in \<^verbatim>\<open>transformgraph.h\<close>). A measurement
  carries a key, a transform and a weight; the source reads the key, and hands the whole
  measurement to the constructor of \<^verbatim>\<open>EdgeInfo\<close>.
\<close>

record ('k, 't) SensorData =
  key :: 'k
  transform :: 't
  weight :: real

text \<open>
  Modelled from the spec: the constructor \<^verbatim>\<open>EdgeInfo(sensorData)\<close> (in \<^verbatim>\<open>transformgraph.h\<close>)
  takes over the key and the transform of the measurement.
\<close>

definition EdgeInfo_of :: "('k, 't) SensorData \<Rightarrow> ('k, 't) EdgeInfo" where
  "EdgeInfo_of sensorData = EdgeInfo (key sensorData) (transform sensorData)"

text \<open>
  Modelled from the spec: \<^verbatim>\<open>EdgeInfo::inverse()\<close> (in \<^verbatim>\<open>transformgraph.h\<close>) keeps the key and
  inverts the transform.
\<close>

fun EdgeInfo_inverse :: "('t \<Rightarrow> 't) \<Rightarrow> ('k, 't) EdgeInfo \<Rightarrow> ('k, 't) EdgeInfo" where
  "EdgeInfo_inverse tinv (EdgeInfo k T) = EdgeInfo k (tinv T)"

text \<open>
  An edge of the graph: its end points, as vertex descriptors, and its property, the pair
  \<open>{weight, info}\<close> of the source.
\<close>

record ('k, 't) Edge =
  source :: nat
  target :: nat
  edge_weight :: real
  edge_info :: "('k, 't) EdgeInfo"

text \<open>
  Modelled from the spec: the \<^verbatim>\<open>Graph\<close> type of \<open>m_graph\<close> (declared in
  \<^verbatim>\<open>transformgraph.h\<close>), a labelled directed multigraph: parallel edges are kept. The source
  indexes \<^verbatim>\<open>std::vector\<close>s with vertex descriptors, so the vertices are stored in a vector
  and a descriptor is an index. \<open>vertex_names\<close> lists the vertices in the order of their
  creation, each with the name \<open>addEntity\<close> gives it, which is its label too. \<open>edge_list\<close>
  holds the edges in the order of their insertion.
\<close>

record ('k, 't) TransformGraph =
  vertex_names :: "string list"
  edge_list :: "('k, 't) Edge list"

text \<open>
  The source checks nothing and raises nothing of its own. What the model records as a fault
  is undefined behaviour of the C++: the null vertex descriptor (the library's answer for a
  label it does not know) handed on to a library routine or used as an index, a write or read
  beyond the end of a vector, and the end of a non-void function reached with no
  \<^verbatim>\<open>return\<close>. A mutating operation that faults gives the graph as it was at that moment.
\<close>

datatype fault = NullVertex | OutOfBounds | MissingReturn

type_synonym ('k, 't) outcome = "(fault \<times> ('k, 't) TransformGraph) + ('k, 't) TransformGraph"

definition empty_graph :: "('k, 't) TransformGraph" where
  "empty_graph = \<lparr>vertex_names = [], edge_list = []\<rparr>"

fun index_of :: "'a \<Rightarrow> 'a list \<Rightarrow> nat option" where
  "index_of x [] = None"
| "index_of x (y # ys) = (if x = y then Some 0 else map_option Suc (index_of x ys))"

text \<open>\<open>None\<close> is \<^verbatim>\<open>Graph::null_vertex()\<close>.\<close>

definition vertex_by_label :: "('k, 't) TransformGraph \<Rightarrow> string \<Rightarrow> nat option" where
  "vertex_by_label g name = index_of name (vertex_names g)"

text \<open>The library adds a vertex only for a label it does not hold yet.\<close>

definition addEntity :: "('k, 't) TransformGraph \<Rightarrow> string \<Rightarrow> ('k, 't) TransformGraph" where
  "addEntity g name =
     (if name \<in> set (vertex_names g) then g else g\<lparr>vertex_names := vertex_names g @ [name]\<rparr>)"

text \<open>
  Modelled from the spec: \<^verbatim>\<open>RemovePredicate\<close> (declared in \<^verbatim>\<open>transformgraph.h\<close>) holds of
  the edges that carry the key.
\<close>

definition RemovePredicate :: "'k \<Rightarrow> ('k, 't) Edge \<Rightarrow> bool" where
  "RemovePredicate k e = (info_key (edge_info e) = k)"

text \<open>
  Modelled from the spec: the member \<open>stop\<close> of \<^verbatim>\<open>RemovePredicate\<close>, read after a pass of
  \<^verbatim>\<open>remove_edge_if\<close>, tells that the pass met an edge with the key, so that the loop of
  \<open>removeEdgeByKey\<close> "repeats until no matching edge remains".
\<close>

definition pred_stop :: "(('k, 't) Edge \<Rightarrow> bool) \<Rightarrow> ('k, 't) TransformGraph \<Rightarrow> bool" where
  "pred_stop pred g = list_ex pred (edge_list g)"

text \<open>\<^verbatim>\<open>boost::remove_edge_if\<close> removes every edge of which the predicate holds.\<close>

definition remove_edge_if ::
  "(('k, 't) Edge \<Rightarrow> bool) \<Rightarrow> ('k, 't) TransformGraph \<Rightarrow> ('k, 't) TransformGraph" where
  "remove_edge_if pred g = g\<lparr>edge_list := filter (\<lambda>e. \<not> pred e) (edge_list g)\<rparr>"

function removeEdgeByKey :: "'k \<Rightarrow> ('k, 't) TransformGraph \<Rightarrow> ('k, 't) TransformGraph" where
  "removeEdgeByKey k g =
     (let stop = pred_stop (RemovePredicate k) g;
          g' = remove_edge_if (RemovePredicate k) g
      in if \<not> stop then g' else removeEdgeByKey k g')"
  by pat_completeness auto
termination
proof (relation "measure (\<lambda>(k, g). length (filter (RemovePredicate k) (edge_list g)))")
  show "wf (measure (\<lambda>(k, g). length (filter (RemovePredicate k) (edge_list g))))" by simp
next
  fix k :: 'k and g :: "('k, 't) TransformGraph" and x xa
  assume "x = pred_stop (RemovePredicate k) g" "xa = remove_edge_if (RemovePredicate k) g" "\<not> \<not> x"
  then have "list_ex (RemovePredicate k) (edge_list g)" by (simp add: pred_stop_def)
  then have "filter (RemovePredicate k) (edge_list g) \<noteq> []"
    by (simp add: list_ex_iff filter_empty_conv)
  then show "((k, xa), (k, g)) \<in> measure (\<lambda>(k, g). length (filter (RemovePredicate k) (edge_list g)))"
    using \<open>xa = remove_edge_if (RemovePredicate k) g\<close> by (simp add: remove_edge_if_def)
qed

declare removeEdgeByKey.simps [simp del]

definition add_edge_by_label ::
  "('k, 't) TransformGraph \<Rightarrow> string \<Rightarrow> string \<Rightarrow> real \<Rightarrow> ('k, 't) EdgeInfo \<Rightarrow> ('k, 't) outcome" where
  "add_edge_by_label g u v w i =
     (case (vertex_by_label g u, vertex_by_label g v) of
        (Some a, Some b) \<Rightarrow>
          Inr (g\<lparr>edge_list := edge_list g @ [\<lparr>source = a, target = b, edge_weight = w, edge_info = i\<rparr>]\<rparr>)
      | _ \<Rightarrow> Inl (NullVertex, g))"

definition updateSensorData ::
  "('t \<Rightarrow> 't) \<Rightarrow> ('k, 't) TransformGraph \<Rightarrow> string \<Rightarrow> string \<Rightarrow> ('k, 't) SensorData \<Rightarrow> ('k, 't) outcome" where
  "updateSensorData tinv g from to sensorData =
     (let g1 = removeEdgeByKey (key sensorData) g;
          info = EdgeInfo_of sensorData
      in case add_edge_by_label g1 from to 1 info of
           Inl f \<Rightarrow> Inl f
         | Inr g2 \<Rightarrow> add_edge_by_label g2 to from 1 (EdgeInfo_inverse tinv info))"

definition removeAllEdges :: "('k, 't) TransformGraph \<Rightarrow> string \<Rightarrow> string \<Rightarrow> ('k, 't) outcome" where
  "removeAllEdges g from to =
     (case (vertex_by_label g from, vertex_by_label g to) of
        (Some a, Some b) \<Rightarrow> Inr (remove_edge_if (\<lambda>e. source e = a \<and> target e = b) g)
      | _ \<Rightarrow> Inl (NullVertex, g))"

definition numberOfEdges :: "('k, 't) TransformGraph \<Rightarrow> nat" where
  "numberOfEdges g = length (edge_list g)"

subsection \<open>The shortest-path search of the library\<close>

text \<open>
  \<^verbatim>\<open>boost::dijkstra_shortest_paths\<close> is a library routine; the model follows its documented
  course. Every vertex starts white, at distance infinity and as its own predecessor; the
  start vertex is put at distance zero and coloured gray. The gray vertex of least distance
  is taken (among equal distances the model takes the one of least index; the library leaves
  the choice to its heap), each of its out-edges is examined in the order of insertion, and
  the vertex is coloured black. An edge to a white vertex is relaxed and the vertex turns
  gray; an edge to a gray vertex is relaxed; an edge to a black vertex is left alone. The
  distance infinity is a value of its own here, and the sum is the library's
  \<^verbatim>\<open>closed_plus\<close>. Weights are not negative in any graph the program builds.
\<close>

datatype color = White | Gray | Black

datatype distance = Finite real | Infinite

fun closed_plus :: "distance \<Rightarrow> distance \<Rightarrow> distance" where
  "closed_plus (Finite a) (Finite b) = Finite (a + b)"
| "closed_plus _ _ = Infinite"

fun distance_less :: "distance \<Rightarrow> distance \<Rightarrow> bool" where
  "distance_less (Finite a) (Finite b) = (a < b)"
| "distance_less (Finite a) Infinite = True"
| "distance_less Infinite _ = False"

record search =
  colors :: "color list"
  distances :: "distance list"
  predecessors :: "nat list"

definition out_edges :: "('k, 't) Edge list \<Rightarrow> nat \<Rightarrow> ('k, 't) Edge list" where
  "out_edges es u = filter (\<lambda>e. source e = u) es"

definition relax :: "nat \<Rightarrow> ('k, 't) Edge \<Rightarrow> search \<Rightarrow> search" where
  "relax u e st =
     (let v = target e;
          c = colors st ! v;
          d = closed_plus (distances st ! u) (Finite (edge_weight e))
      in if c = Black then st
         else
           let st' = (if distance_less d (distances st ! v)
                      then st\<lparr>distances := (distances st)[v := d],
                              predecessors := (predecessors st)[v := u]\<rparr>
                      else st)
           in if c = White then st'\<lparr>colors := (colors st')[v := Gray]\<rparr> else st')"

definition gray_vertices :: "search \<Rightarrow> nat list" where
  "gray_vertices st = filter (\<lambda>v. colors st ! v = Gray) [0..<length (colors st)]"

fun queue_top :: "distance list \<Rightarrow> nat list \<Rightarrow> nat option" where
  "queue_top d [] = None"
| "queue_top d (v # vs) =
     (case queue_top d vs of
        None \<Rightarrow> Some v
      | Some u \<Rightarrow> if distance_less (d ! u) (d ! v) then Some u else Some v)"

definition examine :: "('k, 't) Edge list \<Rightarrow> nat \<Rightarrow> search \<Rightarrow> search" where
  "examine es u st =
     (let st' = fold (relax u) (out_edges es u) st
      in st'\<lparr>colors := (colors st')[u := Black]\<rparr>)"

definition unfinished :: "search \<Rightarrow> nat set" where
  "unfinished st = {v. v < length (colors st) \<and> colors st ! v \<noteq> Black}"

lemma queue_top_mem: "queue_top d vs = Some u \<Longrightarrow> u \<in> set vs"
  by (induction vs arbitrary: u) (auto split: option.splits if_splits)

lemma relax_colors:
  "length (colors (relax u e st)) = length (colors st)
   \<and> (\<forall>i. (colors (relax u e st) ! i = Black) = (colors st ! i = Black))"
proof -
  have "(colors st)[target e := Gray] ! i = Black \<longleftrightarrow> colors st ! i = Black"
    if "colors st ! target e = White" for i
    using that
    by (cases "i = target e"; cases "target e < length (colors st)") (auto simp: list_update_beyond)
  then show ?thesis
    by (auto simp: relax_def Let_def)
qed

lemma fold_relax_colors:
  "length (colors (fold (relax u) es st)) = length (colors st)
   \<and> (\<forall>i. (colors (fold (relax u) es st) ! i = Black) = (colors st ! i = Black))"
proof (induction es arbitrary: st)
  case Nil
  show ?case by simp
next
  case (Cons e es)
  show ?case using Cons.IH [of "relax u e st"] relax_colors [of u e st] by simp
qed

lemma examine_unfinished:
  assumes "queue_top (distances st) (gray_vertices st) = Some u"
  shows "unfinished (examine es u st) = unfinished st - {u} \<and> u \<in> unfinished st"
proof -
  have u: "u < length (colors st)" "colors st ! u = Gray"
    using queue_top_mem [OF assms] by (auto simp: gray_vertices_def)
  let ?st = "fold (relax u) (out_edges es u) st"
  have c: "length (colors ?st) = length (colors st)"
    "\<And>i. (colors ?st ! i = Black) = (colors st ! i = Black)"
    using fold_relax_colors [of u "out_edges es u" st] by auto
  show ?thesis
    using u c by (auto simp: unfinished_def examine_def Let_def nth_list_update)
qed

function dijkstra_loop :: "('k, 't) Edge list \<Rightarrow> search \<Rightarrow> search" where
  "dijkstra_loop es st =
     (case queue_top (distances st) (gray_vertices st) of
        None \<Rightarrow> st
      | Some u \<Rightarrow> dijkstra_loop es (examine es u st))"
  by pat_completeness auto
termination
proof (relation "measure (\<lambda>(es, st). card (unfinished st))")
  show "wf (measure (\<lambda>(es, st). card (unfinished st)))" by simp
next
  fix es :: "('k, 't) Edge list" and st :: search and u
  assume t: "queue_top (distances st) (gray_vertices st) = Some u"
  have fin: "finite (unfinished st)" by (simp add: unfinished_def)
  have "card (unfinished st - {u}) < card (unfinished st)"
    using examine_unfinished [OF t, of es] fin by (meson card_Diff1_less)
  then show "((es, examine es u st), (es, st)) \<in> measure (\<lambda>(es, st). card (unfinished st))"
    using examine_unfinished [OF t, of es] by simp
qed

declare dijkstra_loop.simps [simp del]

text \<open>
  The caller passes the two maps as vectors of \<open>n\<close> entries, zero-initialised. The library
  writes the distance and the predecessor of every vertex first, then the distance of the
  start vertex: \<open>n\<close> below the number of vertices overruns the vectors, and so does the null
  vertex as start.
\<close>

definition dijkstra_shortest_paths ::
  "('k, 't) TransformGraph \<Rightarrow> nat option \<Rightarrow> nat \<Rightarrow> fault + search" where
  "dijkstra_shortest_paths g start n =
     (let nv = length (vertex_names g)
      in if n < nv then Inl OutOfBounds
         else case start of
                None \<Rightarrow> Inl NullVertex
              | Some s \<Rightarrow>
                  Inr (dijkstra_loop (edge_list g)
                        \<lparr>colors = (replicate nv White)[s := Gray],
                         distances = (replicate nv Infinite @ replicate (n - nv) (Finite 0))[s := Finite 0],
                         predecessors = [0..<nv] @ replicate (n - nv) 0\<rparr>))"

subsection \<open>Path and transform lookup\<close>

text \<open>\<^verbatim>\<open>boost::edge(u, v, g)\<close>: the first edge from \<open>u\<close> to \<open>v\<close>, if there is one.\<close>

definition edge :: "('k, 't) Edge list \<Rightarrow> nat \<Rightarrow> nat \<Rightarrow> ('k, 't) Edge option" where
  "edge es u v = find (\<lambda>e. source e = u \<and> target e = v) es"

text \<open>
  The loop of \<open>lookupPath\<close> that travels from the goal to the start along the predecessors:
  \<^verbatim>\<open>for (Vertex u = p[v]; u != v; v = u, u = p[v])\<close>. Nothing in the source bounds it, so it
  is a partial function: \<open>None\<close> is a loop that never ends.
\<close>

partial_function (option) walk ::
  "nat list \<Rightarrow> ('k, 't) Edge list \<Rightarrow> nat \<Rightarrow> nat \<Rightarrow> ('k, 't) Edge list \<Rightarrow>
   (fault + ('k, 't) Edge list) option" where
  "walk p es u v path =
     (if u = v then Some (Inr path)
      else if length p \<le> u then Some (Inl OutOfBounds)
      else walk p es (p ! u) u (case edge es u v of None \<Rightarrow> path | Some e \<Rightarrow> path @ [e]))"

declare walk.simps [code]

text \<open>
  The second loop, over the path from its last edge to its first: the name of the source of
  the first edge visited, then the name of the target of every edge. (Its test for a null
  source or target never holds of an edge of the graph.)
\<close>

fun verticesInPath :: "string list \<Rightarrow> ('k, 't) Edge list \<Rightarrow> string list" where
  "verticesInPath names [] = []"
| "verticesInPath names (e # es) = names ! source e # map (\<lambda>e. names ! target e) (e # es)"

definition lookupPath ::
  "('k, 't) TransformGraph \<Rightarrow> string \<Rightarrow> string \<Rightarrow> (fault + string list) option" where
  "lookupPath g from to =
     (let n = length (edge_list g);
          start = vertex_by_label g from;
          goal = vertex_by_label g to
      in case dijkstra_shortest_paths g start n of
           Inl f \<Rightarrow> Some (Inl f)
         | Inr st \<Rightarrow>
             (case goal of
                None \<Rightarrow> Some (Inl NullVertex)
              | Some v \<Rightarrow>
                  (case walk (predecessors st) (edge_list g) (predecessors st ! v) v [] of
                     None \<Rightarrow> None
                   | Some (Inl f) \<Rightarrow> Some (Inl f)
                   | Some (Inr path) \<Rightarrow> Some (Inr (verticesInPath (vertex_names g) (rev path))))))"

text \<open>
  Before it returns, \<open>lookupPath\<close> prints \<open>d[goal]\<close>, the cost the search has found for the
  goal.
\<close>

definition goal_distance :: "('k, 't) TransformGraph \<Rightarrow> string \<Rightarrow> string \<Rightarrow> distance option" where
  "goal_distance g from to =
     (case dijkstra_shortest_paths g (vertex_by_label g from) (length (edge_list g)) of
        Inl f \<Rightarrow> None
      | Inr st \<Rightarrow> (case vertex_by_label g to of None \<Rightarrow> None | Some v \<Rightarrow> Some (distances st ! v)))"

text \<open>
  \<open>lookupTransform\<close> returns a default-constructed transform, the parameter \<open>T0\<close>, when the
  path is empty. On a path that is not empty the source reaches the end of the function.
\<close>

definition lookupTransform ::
  "'t \<Rightarrow> ('k, 't) TransformGraph \<Rightarrow> string \<Rightarrow> string \<Rightarrow> (fault + 't) option" where
  "lookupTransform T0 g from to =
     (case lookupPath g from to of
        None \<Rightarrow> None
      | Some (Inl f) \<Rightarrow> Some (Inl f)
      | Some (Inr path) \<Rightarrow> if path = [] then Some (Inr T0) else Some (Inl MissingReturn))"

definition canTransform :: "('k, 't) TransformGraph \<Rightarrow> string \<Rightarrow> string \<Rightarrow> (fault + bool) option" where
  "canTransform g from to =
     (case lookupPath g from to of
        None \<Rightarrow> None
      | Some (Inl f) \<Rightarrow> Some (Inl f)
      | Some (Inr path) \<Rightarrow> Some (Inr (path \<noteq> [])))"

subsection \<open>The states of the graph, and concrete graphs\<close>

text \<open>The graphs the operations of the class build, starting from the empty one.\<close>

inductive reachable :: "('t \<Rightarrow> 't) \<Rightarrow> ('k, 't) TransformGraph \<Rightarrow> bool" for tinv :: "'t \<Rightarrow> 't" where
  initial: "reachable tinv empty_graph"
| entity: "reachable tinv g \<Longrightarrow> reachable tinv (addEntity g name)"
| sensor: "reachable tinv g \<Longrightarrow> updateSensorData tinv g from to sensorData = Inr g' \<Longrightarrow> reachable tinv g'"
| removed: "reachable tinv g \<Longrightarrow> removeAllEdges g from to = Inr g' \<Longrightarrow> reachable tinv g'"
| removed_key: "reachable tinv g \<Longrightarrow> reachable tinv (removeEdgeByKey k g)"

definition path_cost :: "('k, 't) Edge list \<Rightarrow> real" where
  "path_cost es = sum_list (map edge_weight es)"

text \<open>
  Keys are strings and transforms are integers (shifts along a line, inverted by negation)
  in the concrete graphs. \<open>graph_ABC\<close> is the scenario of the spec: the frames \<open>A\<close>, \<open>B\<close>
  and \<open>C\<close>, a measurement with key \<open>s1\<close> from \<open>A\<close> to \<open>B\<close> and one with key \<open>s2\<close> from
  \<open>B\<close> to \<open>C\<close>.
\<close>

definition s1 :: "(string, int) SensorData" where
  "s1 = \<lparr>key = ''s1'', transform = 5, weight = 3\<rparr>"

definition s2 :: "(string, int) SensorData" where
  "s2 = \<lparr>key = ''s2'', transform = 7, weight = 1 / 2\<rparr>"

definition frames_AB :: "(string, int) TransformGraph" where
  "frames_AB = addEntity (addEntity empty_graph ''A'') ''B''"

definition frames_ABC :: "(string, int) TransformGraph" where
  "frames_ABC = addEntity frames_AB ''C''"

definition graph_AB :: "(string, int) TransformGraph" where
  "graph_AB =
     \<lparr>vertex_names = [''A'', ''B''],
      edge_list = [\<lparr>source = 0, target = 1, edge_weight = 1, edge_info = EdgeInfo ''s1'' 5\<rparr>,
                   \<lparr>source = 1, target = 0, edge_weight = 1, edge_info = EdgeInfo ''s1'' (- 5)\<rparr>]\<rparr>"

definition graph_ABC :: "(string, int) TransformGraph" where
  "graph_ABC =
     \<lparr>vertex_names = [''A'', ''B'', ''C''],
      edge_list = [\<lparr>source = 0, target = 1, edge_weight = 1, edge_info = EdgeInfo ''s1'' 5\<rparr>,
                   \<lparr>source = 1, target = 0, edge_weight = 1, edge_info = EdgeInfo ''s1'' (- 5)\<rparr>,
                   \<lparr>source = 1, target = 2, edge_weight = 1, edge_info = EdgeInfo ''s2'' 7\<rparr>,
                   \<lparr>source = 2, target = 1, edge_weight = 1, edge_info = EdgeInfo ''s2'' (- 7)\<rparr>]\<rparr>"


text \<open>
  \<open>graph_AB_twice\<close>: the same frames, with both measurements between \<open>A\<close> and \<open>B\<close>, so
  that nothing leads to \<open>C\<close>.
\<close>

definition graph_AB_twice :: "(string, int) TransformGraph" where
  "graph_AB_twice =
     \<lparr>vertex_names = [''A'', ''B'', ''C''],
      edge_list = [\<lparr>source = 0, target = 1, edge_weight = 1, edge_info = EdgeInfo ''s1'' 5\<rparr>,
                   \<lparr>source = 1, target = 0, edge_weight = 1, edge_info = EdgeInfo ''s1'' (- 5)\<rparr>,
                   \<lparr>source = 0, target = 1, edge_weight = 1, edge_info = EdgeInfo ''s2'' 7\<rparr>,
                   \<lparr>source = 1, target = 0, edge_weight = 1, edge_info = EdgeInfo ''s2'' (- 7)\<rparr>]\<rparr>"

subsection \<open>Invariants of the search\<close>

text \<open>
  \<open>edge_rel\<close> is the relation "an edge leads from \<open>u\<close> to \<open>v\<close>". A chain lists vertices from
  a vertex back to the start \<open>s\<close>, each the predecessor of the one before it and joined to
  it by an edge, all but the first of them in the set \<open>S\<close> of settled vertices. The invariants
  say that every vertex the search has coloured has a finite distance and a chain, which has as
  many links as the distance says when every weight is 1, and that a white vertex is its own
  predecessor. \<open>inner_inv\<close> holds while the out-edges of \<open>u\<close> are examined, \<open>loop_inv\<close> between
  two rounds. \<open>wf_edges\<close>: the edges join vertices of the graph and no weight is negative.
\<close>

definition edge_rel :: "('k, 't) Edge list \<Rightarrow> (nat \<times> nat) set" where
  "edge_rel es = (\<lambda>e. (source e, target e)) ` set es"

inductive chain :: "nat set \<Rightarrow> ('k, 't) Edge list \<Rightarrow> nat list \<Rightarrow> nat \<Rightarrow> nat list \<Rightarrow> bool"
  for S :: "nat set" and es :: "('k, 't) Edge list" and p :: "nat list" and s :: nat where
  root: "chain S es p s [s]"
| link: "chain S es p s (u # us) \<Longrightarrow> u \<in> S \<Longrightarrow> p ! v = u \<Longrightarrow> u \<noteq> v \<Longrightarrow> (u, v) \<in> edge_rel es
         \<Longrightarrow> chain S es p s (v # u # us)"

definition blacks :: "nat \<Rightarrow> search \<Rightarrow> nat set" where
  "blacks n st = {v. v < n \<and> colors st ! v = Black}"

definition unit_weights :: "('k, 't) Edge list \<Rightarrow> bool" where
  "unit_weights es \<longleftrightarrow> (\<forall>e\<in>set es. edge_weight e = 1)"

definition base_inv :: "('k, 't) Edge list \<Rightarrow> nat \<Rightarrow> nat \<Rightarrow> nat set \<Rightarrow> search \<Rightarrow> bool" where
  "base_inv es s n S st \<longleftrightarrow>
     length (colors st) = n \<and> n \<le> length (predecessors st) \<and> n \<le> length (distances st)
     \<and> s < n \<and> predecessors st ! s = s \<and> colors st ! s \<noteq> White
     \<and> (\<forall>v<n. colors st ! v = White \<longrightarrow> predecessors st ! v = v \<and> distances st ! v = Infinite)
     \<and> (\<forall>v<n. colors st ! v \<noteq> White \<longrightarrow>
           (\<exists>r. distances st ! v = Finite r)
           \<and> (\<exists>vs. chain S es (predecessors st) s (v # vs)
                  \<and> (unit_weights es \<longrightarrow> distances st ! v = Finite (real (length vs)))))"

definition inner_inv :: "('k, 't) Edge list \<Rightarrow> nat \<Rightarrow> nat \<Rightarrow> nat \<Rightarrow> search \<Rightarrow> bool" where
  "inner_inv es s n u st \<longleftrightarrow>
     base_inv es s n (insert u (blacks n st)) st
     \<and> u < n \<and> colors st ! u = Gray \<and> (s = u \<or> colors st ! s = Black)"

definition loop_inv :: "('k, 't) Edge list \<Rightarrow> nat \<Rightarrow> nat \<Rightarrow> search \<Rightarrow> bool" where
  "loop_inv es s n st \<longleftrightarrow>
     base_inv es s n (blacks n st) st
     \<and> (colors st ! s = Black \<or> (\<forall>v<n. v \<noteq> s \<longrightarrow> colors st ! v = White))
     \<and> (\<forall>e\<in>set es. colors st ! source e = Black \<longrightarrow> colors st ! target e \<noteq> White)"

definition wf_edges :: "nat \<Rightarrow> ('k, 't) Edge list \<Rightarrow> bool" where
  "wf_edges n es \<longleftrightarrow> (\<forall>e\<in>set es. source e < n \<and> target e < n \<and> 0 \<le> edge_weight e)"

section \<open>Properties of WeightedMean\<close>

lemma addVec3_all_weights:
  "m_vectorWeights (addVec3_all s xs) = foldl (+) (m_vectorWeights s) (map snd xs)"
  by (induction xs arbitrary: s) (auto simp: WeightedMean_addVec3_def)

lemma addVec3_all_sum:
  "m_vectorWeightedSum s = (a, b, c) \<Longrightarrow>
   m_vectorWeightedSum (addVec3_all s xs) =
     (foldl (+) a (map (\<lambda>((x, y, z), w). x * w) xs),
      foldl (+) b (map (\<lambda>((x, y, z), w). y * w) xs),
      foldl (+) c (map (\<lambda>((x, y, z), w). z * w) xs))"
proof (induction xs arbitrary: s a b c)
  case Nil
  then show ?case by simp
next
  case (Cons p xs)
  obtain x y z w where p: "p = ((x, y, z), w)" by (cases p) auto
  have "m_vectorWeightedSum (WeightedMean_addVec3 s (x, y, z) w) = (a + x * w, b + y * w, c + z * w)"
    using Cons.prems by (simp add: WeightedMean_addVec3_def)
  from Cons.IH [OF this] show ?case by (simp add: p)
qed

text \<open>
  C8: \<open>weightedMeanVec3\<close> returns the accumulated weighted sum divided by the accumulated
  weight. After a reset and any sequence of \<open>addVec3\<close> calls the accumulated weight is the
  weights added one after the other to \<open>0\<close>, and each component of the accumulated sum the
  products of component and weight added one after the other to \<open>0\<close>, in the arithmetic of the
  machine; the result is their quotient, and the zero vector when the accumulated weight is
  zero. In whatever state, the result is the zero vector when the accumulated weight is zero.
  After a single \<open>addVec3 v 1\<close> the result is \<open>v\<close> itself, by what the machine arithmetic does
  with \<open>0\<close> and \<open>1\<close>: \<open>0 + x\<close>, \<open>x * 1\<close> and \<open>x / 1\<close> are \<open>x\<close>, and \<open>1\<close> is not \<open>0\<close>.
\<close>

theorem weightedMeanVec3_is_weighted_mean:
  fixes s :: "'d::{zero, one, plus, times, inverse} WeightedMean"
  shows "weightedMeanVec3 (addVec3_all (WeightedMean_reset s) samples) =
       (if foldl (+) 0 (map snd samples) = 0 then (0, 0, 0)
        else (foldl (+) 0 (map (\<lambda>((x, y, z), w). x * w) samples) / foldl (+) 0 (map snd samples),
              foldl (+) 0 (map (\<lambda>((x, y, z), w). y * w) samples) / foldl (+) 0 (map snd samples),
              foldl (+) 0 (map (\<lambda>((x, y, z), w). z * w) samples) / foldl (+) 0 (map snd samples)))
     \<and> (m_vectorWeights s = 0 \<longrightarrow> weightedMeanVec3 s = (0, 0, 0))
     \<and> ((\<forall>x::'d. 0 + x = x \<and> x * 1 = x \<and> x / 1 = x) \<and> (1::'d) \<noteq> 0 \<longrightarrow>
          weightedMeanVec3 (WeightedMean_addVec3 (WeightedMean_reset s) v 1) = v)"
proof -
  let ?r = "WeightedMean_reset s"
  have "m_vectorWeightedSum ?r = (0, 0, 0)" "m_vectorWeights ?r = 0"
    by (simp_all add: WeightedMean_reset_def)
  then have "weightedMeanVec3 (addVec3_all ?r samples) =
       (if foldl (+) 0 (map snd samples) = 0 then (0, 0, 0)
        else (foldl (+) 0 (map (\<lambda>((x, y, z), w). x * w) samples) / foldl (+) 0 (map snd samples),
              foldl (+) 0 (map (\<lambda>((x, y, z), w). y * w) samples) / foldl (+) 0 (map snd samples),
              foldl (+) 0 (map (\<lambda>((x, y, z), w). z * w) samples) / foldl (+) 0 (map snd samples)))"
    using addVec3_all_sum [of ?r 0 0 0 samples] addVec3_all_weights [of ?r samples]
    by (simp add: weightedMeanVec3_def)
  moreover have "weightedMeanVec3 s = (0, 0, 0)" if "m_vectorWeights s = 0"
    using that by (simp add: weightedMeanVec3_def)
  moreover have "weightedMeanVec3 (WeightedMean_addVec3 ?r v 1) = v"
    if "\<forall>x::'d. 0 + x = x \<and> x * 1 = x \<and> x / 1 = x" "(1::'d) \<noteq> 0"
  proof -
    obtain a b c where v: "v = (a, b, c)" by (cases v)
    show ?thesis
      using that by (simp add: v weightedMeanVec3_def WeightedMean_addVec3_def WeightedMean_reset_def)
  qed
  ultimately show ?thesis by blast
qed

lemma coarse_arithmetic:
  "(\<forall>x::coarse. 0 + x = x \<and> x * 1 = x \<and> x / 1 = x) \<and> (1::coarse) \<noteq> 0"
proof -
  have "0 + x = x \<and> x * 1 = x \<and> x / 1 = x" for x :: coarse
    by (cases x) (simp add: zero_coarse_def one_coarse_def)
  then show ?thesis by (simp add: zero_coarse_def one_coarse_def)
qed

text \<open>
  In the arithmetic \<open>coarse\<close>: a single sample of weight 1 comes back as it is; and with the
  weights 16, 1 and - 16 the accumulated weight is 0, the 1 being lost beside the 16, so the
  result is the zero vector, where exact arithmetic has the weight 1 and the mean
  \<open>(1, 0, 0)\<close>. A state with accumulated weight 0 gives the zero vector.
\<close>

theorem weightedMeanVec3_is_weighted_mean_witness:
  "weightedMeanVec3
     (WeightedMean_addVec3
        (WeightedMean_reset \<lparr>m_vectorWeightedSum = (Coarse 7, Coarse 8, Coarse 9),
                             m_vectorWeights = Coarse 2, m_quats = []\<rparr>)
        (Coarse 4, Coarse 5, Coarse 6) 1)
   = (Coarse 4, Coarse 5, Coarse 6)
   \<and> weightedMeanVec3
        (addVec3_all
           (WeightedMean_reset \<lparr>m_vectorWeightedSum = (Coarse 7, Coarse 8, Coarse 9),
                                m_vectorWeights = Coarse 2, m_quats = []\<rparr>)
           [((Coarse 0, Coarse 0, Coarse 0), Coarse 16), ((Coarse 1, Coarse 0, Coarse 0), Coarse 1),
            ((Coarse 0, Coarse 0, Coarse 0), Coarse (- 16))])
      = (Coarse 0, Coarse 0, Coarse 0)
   \<and> weightedMeanVec3 \<lparr>m_vectorWeightedSum = (Coarse 7, Coarse 8, Coarse 9),
                         m_vectorWeights = Coarse 0, m_quats = []\<rparr>
      = (Coarse 0, Coarse 0, Coarse 0)
   \<and> weightedMeanVec3
        (addVec3_all
           (WeightedMean_reset \<lparr>m_vectorWeightedSum = (7, 8, 9), m_vectorWeights = 2, m_quats = []\<rparr>)
           [((0, 0, 0), 16), ((1, 0, 0), 1), ((0, 0, 0), - 16)])
      = (1 :: real, 0 :: real, 0 :: real)"
  using weightedMeanVec3_is_weighted_mean
      [of "\<lparr>m_vectorWeightedSum = (Coarse 7, Coarse 8, Coarse 9),
            m_vectorWeights = Coarse 2, m_quats = []\<rparr>"
          "[((Coarse 0, Coarse 0, Coarse 0), Coarse 16), ((Coarse 1, Coarse 0, Coarse 0), Coarse 1),
            ((Coarse 0, Coarse 0, Coarse 0), Coarse (- 16))]"
          "(Coarse 4, Coarse 5, Coarse 6)"]
    weightedMeanVec3_is_weighted_mean
      [of "\<lparr>m_vectorWeightedSum = (Coarse 7, Coarse 8, Coarse 9),
            m_vectorWeights = Coarse 0, m_quats = []\<rparr>" "[]" "(Coarse 4, Coarse 5, Coarse 6)"]
    weightedMeanVec3_is_weighted_mean
      [of "\<lparr>m_vectorWeightedSum = (7 :: real, 8 :: real, 9 :: real), m_vectorWeights = 2, m_quats = []\<rparr>"
          "[((0, 0, 0), 16), ((1, 0, 0), 1), ((0, 0, 0), - 16)]" "(4, 5, 6)"]
    coarse_arithmetic
  by (simp add: zero_coarse_def)

text \<open>
  In exact arithmetic, the real numbers, the accumulated weight is the sum of the weights and
  the accumulated sum the sum of the weighted samples; the scenario of the spec, three unit
  vectors of weight one, has the mean \<open>(1/3, 1/3, 1/3)\<close>.
\<close>

lemma foldl_plus_real: "foldl (+) a xs = a + sum_list xs" for a :: real
  by (induction xs arbitrary: a) auto

lemma exact_weighted_mean:
  fixes s :: "real WeightedMean"
  shows "weightedMeanVec3 (addVec3_all (WeightedMean_reset s) samples) =
       (if sum_list (map snd samples) = 0 then (0, 0, 0)
        else (sum_list (map (\<lambda>((x, y, z), w). x * w) samples) / sum_list (map snd samples),
              sum_list (map (\<lambda>((x, y, z), w). y * w) samples) / sum_list (map snd samples),
              sum_list (map (\<lambda>((x, y, z), w). z * w) samples) / sum_list (map snd samples)))"
proof -
  let ?r = "WeightedMean_reset s"
  have "m_vectorWeightedSum ?r = (0, 0, 0)" "m_vectorWeights ?r = 0"
    by (simp_all add: WeightedMean_reset_def)
  then show ?thesis
    using addVec3_all_sum [of ?r 0 0 0 samples] addVec3_all_weights [of ?r samples]
    by (simp add: weightedMeanVec3_def foldl_plus_real)
qed

lemma unit_vectors_mean:
  fixes s :: "real WeightedMean"
  shows "weightedMeanVec3
     (addVec3_all (WeightedMean_reset s) [((1, 0, 0), 1), ((0, 1, 0), 1), ((0, 0, 1), 1)])
   = (1 / 3, 1 / 3, 1 / 3)"
  by (simp add: weightedMeanVec3_def WeightedMean_addVec3_def WeightedMean_reset_def)

lemma quats_product_Nil: "quats_product [] = replicate 4 (replicate 4 0)"
  by (simp add: quats_product_def upt_rec numeral_eq_Suc)

text \<open>
  C5, as the code has it: with no rotation sample since the last reset, \<open>weightedMeanQuat\<close>
  reports nothing. It hands the zero matrix to the eigen-solver and returns, as a quaternion,
  the eigenvector column at the index its search picks among the eigenvalues.
\<close>

theorem weightedMeanQuat_no_samples:
  "weightedMeanQuat solver (WeightedMean_reset s) =
     eigenvectors (solver (replicate 4 (replicate 4 0)))
       (largest_eigenvalue (eigenvalues (solver (replicate 4 (replicate 4 0)))) 0 0 (- 1))"
  by (simp add: weightedMeanQuat_def WeightedMean_reset_def quats_product_Nil Let_def)

text \<open>
  C5 as stated fails: with no sample, and the eigenvalues and eigenvectors of the zero
  matrix, the call returns the quaternion \<open>(1, 0, 0, 0)\<close>.
\<close>

theorem weightedMeanQuat_no_samples_returns:
  "weightedMeanQuat diagonal_solver
     (WeightedMean_reset \<lparr>m_vectorWeightedSum = (0 :: real, 0 :: real, 0 :: real),
                          m_vectorWeights = 0 :: real, m_quats = []\<rparr>)
   = (1, 0, 0, 0)"
  by (simp add: weightedMeanQuat_def WeightedMean_reset_def quats_product_Nil Let_def
      diagonal_solver_def unit_column_def upt_rec numeral_eq_Suc)

section \<open>Properties of ExplonentialMovingAverageFilter\<close>



text \<open>The scenario of the spec: \<open>m_alpha = 1 / 2\<close>, the samples 10 and 20, no timeout.\<close>

lemma blend_scenario:
  "EMA_scalar (addScalar t3 t4 (addScalar t1 t2 (EMA_new (1 / 2) 0) 10) 20) = 15"
  by (simp add: EMA_new_def addScalar_def checkReinit_def EMA_scalar_def Let_def)

text \<open>
  C9, as the code has it: an accessor returns the stored estimate and looks at no flag. On a
  filter just constructed that is the default (zero, the zero vector, the identity rotation);
  \<open>reset\<close> leaves the three estimates as they are, so a read after \<open>reset\<close> returns the estimate
  held before it.
\<close>

theorem accessors_ignore_flags:
  "EMA_scalar (EMA_new alpha timeout) = 0
   \<and> EMA_vec3 (EMA_new alpha timeout) = vec3_zero
   \<and> EMA_quat (EMA_new alpha timeout) = quat_identity
   \<and> EMA_scalar (EMA_reset s) = EMA_scalar s
   \<and> EMA_vec3 (EMA_reset s) = EMA_vec3 s
   \<and> EMA_quat (EMA_reset s) = EMA_quat s"
  by (simp add: EMA_new_def EMA_reset_def EMA_scalar_def EMA_vec3_def EMA_quat_def)

text \<open>
  C9 as stated fails after \<open>reset\<close>: the reads return the estimates held before it, none of
  them the default.
\<close>

theorem read_after_reset_counterexample:
  "EMA_scalar (EMA_reset (addScalar 101 102 sample_filter 5)) \<noteq> 0
   \<and> EMA_vec3 (EMA_reset sample_filter) \<noteq> vec3_zero
   \<and> EMA_quat (EMA_reset sample_filter) \<noteq> quat_identity"
  by (simp add: sample_filter_def EMA_reset_def addScalar_def checkReinit_def EMA_scalar_def
      EMA_vec3_def EMA_quat_def vec3_zero_def quat_identity_def Let_def)

section \<open>Properties of TransformGraph\<close>

lemma index_of_Some: "index_of x xs = Some i \<Longrightarrow> i < length xs \<and> xs ! i = x"
proof (induction xs arbitrary: i)
  case Nil
  then show ?case by simp
next
  case (Cons y ys)
  then show ?case by (auto split: if_splits)
qed

lemma index_of_None: "index_of x xs = None \<longleftrightarrow> x \<notin> set xs"
  by (induction xs) auto

lemma vertex_by_label_None: "vertex_by_label g name = None \<longleftrightarrow> name \<notin> set (vertex_names g)"
  by (simp add: vertex_by_label_def index_of_None)

lemma vertex_by_label_Some:
  "vertex_by_label g name = Some v \<Longrightarrow> v < length (vertex_names g) \<and> vertex_names g ! v = name"
  by (simp add: vertex_by_label_def index_of_Some)

lemma removeEdgeByKey_eq: "removeEdgeByKey k g = remove_edge_if (RemovePredicate k) g"
proof (cases "pred_stop (RemovePredicate k) g")
  case False
  then show ?thesis by (subst removeEdgeByKey.simps) (simp add: Let_def)
next
  case True
  let ?g = "remove_edge_if (RemovePredicate k) g"
  have "\<not> pred_stop (RemovePredicate k) ?g"
    by (simp add: pred_stop_def remove_edge_if_def list_ex_iff)
  then have "removeEdgeByKey k ?g = remove_edge_if (RemovePredicate k) ?g"
    by (subst removeEdgeByKey.simps) (simp add: Let_def)
  also have "\<dots> = ?g" by (simp add: remove_edge_if_def)
  finally show ?thesis using True by (subst removeEdgeByKey.simps) (simp add: Let_def)
qed

lemma removeEdgeByKey_edges:
  "edge_list (removeEdgeByKey k g) = filter (\<lambda>e. info_key (edge_info e) \<noteq> k) (edge_list g)"
  by (simp add: removeEdgeByKey_eq remove_edge_if_def RemovePredicate_def)

lemma removeEdgeByKey_names: "vertex_names (removeEdgeByKey k g) = vertex_names g"
  by (simp add: removeEdgeByKey_eq remove_edge_if_def)

text \<open>
  C3: after one call of \<open>removeEdgeByKey k\<close> no edge of the graph carries the key \<open>k\<close>,
  whatever its direction and its end points and however many edges carried it; a second call
  changes nothing; the other edges and the vertices are kept.
\<close>

theorem removeEdgeByKey_fixed_point:
  "(\<forall>e \<in> set (edge_list (removeEdgeByKey k g)). info_key (edge_info e) \<noteq> k)
   \<and> removeEdgeByKey k (removeEdgeByKey k g) = removeEdgeByKey k g
   \<and> edge_list (removeEdgeByKey k g) = filter (\<lambda>e. info_key (edge_info e) \<noteq> k) (edge_list g)
   \<and> vertex_names (removeEdgeByKey k g) = vertex_names g"
  by (simp add: removeEdgeByKey_eq remove_edge_if_def RemovePredicate_def)

text \<open>In \<open>graph_ABC\<close> two edges carry \<open>s1\<close>, the measurement and its mirror: both go.\<close>

theorem removeEdgeByKey_fixed_point_witness:
  "edge_list (removeEdgeByKey ''s1'' graph_ABC) =
     [\<lparr>source = 1, target = 2, edge_weight = 1, edge_info = EdgeInfo ''s2'' 7\<rparr>,
      \<lparr>source = 2, target = 1, edge_weight = 1, edge_info = EdgeInfo ''s2'' (- 7)\<rparr>]
   \<and> removeEdgeByKey ''s1'' (removeEdgeByKey ''s1'' graph_ABC) = removeEdgeByKey ''s1'' graph_ABC"
  using removeEdgeByKey_fixed_point [of "''s1''" graph_ABC]
  by (simp add: graph_ABC_def)

text \<open>
  What \<open>updateSensorData\<close> does between registered frames: the edges that carry the key go;
  the measurement and its mirror, with the inverted transform and the same key, are appended,
  both with the weight 1.
\<close>

lemma updateSensorData_registered:
  assumes "vertex_by_label g from = Some a" "vertex_by_label g to = Some b"
  shows "updateSensorData tinv g from to sd =
     Inr (g\<lparr>edge_list := filter (\<lambda>e. info_key (edge_info e) \<noteq> key sd) (edge_list g) @
        [\<lparr>source = a, target = b, edge_weight = 1, edge_info = EdgeInfo (key sd) (transform sd)\<rparr>,
         \<lparr>source = b, target = a, edge_weight = 1, edge_info = EdgeInfo (key sd) (tinv (transform sd))\<rparr>]\<rparr>)"
  using assms
  by (simp add: updateSensorData_def add_edge_by_label_def vertex_by_label_def Let_def
      removeEdgeByKey_eq remove_edge_if_def RemovePredicate_def EdgeInfo_of_def)

lemma updateSensorData_unregistered:
  assumes "vertex_by_label g from = None \<or> vertex_by_label g to = None"
  shows "updateSensorData tinv g from to sd = Inl (NullVertex, removeEdgeByKey (key sd) g)"
  using assms
  by (auto simp: updateSensorData_def add_edge_by_label_def vertex_by_label_def Let_def
      removeEdgeByKey_names split: option.splits)

lemma updateSensorData_Inr:
  assumes "updateSensorData tinv g from to sd = Inr g'"
  shows "\<exists>a b. vertex_by_label g from = Some a \<and> vertex_by_label g to = Some b
     \<and> g' = g\<lparr>edge_list := filter (\<lambda>e. info_key (edge_info e) \<noteq> key sd) (edge_list g) @
        [\<lparr>source = a, target = b, edge_weight = 1, edge_info = EdgeInfo (key sd) (transform sd)\<rparr>,
         \<lparr>source = b, target = a, edge_weight = 1, edge_info = EdgeInfo (key sd) (tinv (transform sd))\<rparr>]\<rparr>"
proof (cases "vertex_by_label g from = None \<or> vertex_by_label g to = None")
  case True
  then show ?thesis using assms updateSensorData_unregistered [OF True, of tinv sd] by simp
next
  case False
  then obtain a b where ab: "vertex_by_label g from = Some a" "vertex_by_label g to = Some b" by auto
  show ?thesis using assms updateSensorData_registered [OF ab, of tinv sd] ab by simp
qed

lemma removeAllEdges_Inr:
  assumes "removeAllEdges g from to = Inr g'"
  shows "vertex_names g' = vertex_names g \<and> set (edge_list g') \<subseteq> set (edge_list g)"
  using assms
  by (auto simp: removeAllEdges_def remove_edge_if_def split: option.splits)

lemma path_cost_ones:
  assumes "\<forall>e\<in>set es. edge_weight e = 1"
  shows "path_cost es = real (length es)"
  using assms by (induction es) (auto simp: path_cost_def)

lemma reachable_weights: "reachable tinv g \<Longrightarrow> \<forall>e\<in>set (edge_list g). edge_weight e = 1"
proof (induction rule: reachable.induct)
  case initial
  show ?case by (simp add: empty_graph_def)
next
  case (entity g name)
  then show ?case by (simp add: addEntity_def)
next
  case (sensor g "from" to sensorData g')
  from updateSensorData_Inr [OF sensor.hyps(2)] obtain a b where
    "g' = g\<lparr>edge_list := filter (\<lambda>e. info_key (edge_info e) \<noteq> key sensorData) (edge_list g) @
        [\<lparr>source = a, target = b, edge_weight = 1, edge_info = EdgeInfo (key sensorData) (transform sensorData)\<rparr>,
         \<lparr>source = b, target = a, edge_weight = 1, edge_info = EdgeInfo (key sensorData) (tinv (transform sensorData))\<rparr>]\<rparr>"
    by blast
  then show ?case using sensor.IH by auto
next
  case (removed g "from" to g')
  then show ?case using removeAllEdges_Inr [OF removed.hyps(2)] by blast
next
  case (removed_key g k)
  then show ?case by (simp add: removeEdgeByKey_edges)
qed

lemma frames_AB_eq: "frames_AB = \<lparr>vertex_names = [''A'', ''B''], edge_list = []\<rparr>"
  by (simp add: frames_AB_def addEntity_def empty_graph_def)

lemma frames_ABC_eq: "frames_ABC = \<lparr>vertex_names = [''A'', ''B'', ''C''], edge_list = []\<rparr>"
  by (simp add: frames_ABC_def frames_AB_eq addEntity_def)

lemma build_graph_AB: "updateSensorData uminus frames_AB ''A'' ''B'' s1 = Inr graph_AB"
  by (simp add: updateSensorData_registered [where a = 0 and b = 1] frames_AB_eq vertex_by_label_def
      s1_def graph_AB_def)

lemma build_graph_ABC:
  "\<exists>g. updateSensorData uminus frames_ABC ''A'' ''B'' s1 = Inr g
     \<and> updateSensorData uminus g ''B'' ''C'' s2 = Inr graph_ABC"
  by (simp add: updateSensorData_registered [where a = 0 and b = 1]
      updateSensorData_registered [where a = 1 and b = 2] frames_ABC_eq vertex_by_label_def
      s1_def s2_def graph_ABC_def)

lemma reachable_frames_ABC: "reachable uminus frames_ABC"
  unfolding frames_ABC_def frames_AB_def by (intro reachable.entity reachable.initial)

lemma reachable_graph_ABC: "reachable uminus graph_ABC"
proof -
  obtain g where g: "updateSensorData uminus frames_ABC ''A'' ''B'' s1 = Inr g"
    "updateSensorData uminus g ''B'' ''C'' s2 = Inr graph_ABC"
    using build_graph_ABC by blast
  show ?thesis
    by (rule reachable.sensor [OF reachable.sensor [OF reachable_frames_ABC g(1)] g(2)])
qed

text \<open>
  C1, at the scenario of the spec: \<open>lookupPath\<close> finds the path from \<open>A\<close> over \<open>B\<close> to \<open>C\<close>,
  and \<open>lookupTransform\<close> then reaches the end of the function: no transform is composed and
  none is returned.
\<close>

theorem lookupTransform_scenario:
  "lookupPath graph_ABC ''A'' ''C'' = Some (Inr [''A'', ''B'', ''C''])
   \<and> lookupTransform T0 graph_ABC ''A'' ''C'' = Some (Inl MissingReturn)"
  by code_simp

lemma removeAllEdges_unregistered:
  assumes "vertex_by_label g from = None \<or> vertex_by_label g to = None"
  shows "removeAllEdges g from to = Inl (NullVertex, g)"
  using assms by (auto simp: removeAllEdges_def split: option.splits)

lemma lookupPath_unregistered:
  assumes "vertex_by_label g from = None \<or> vertex_by_label g to = None"
  shows "lookupPath g from to = Some (Inl NullVertex) \<or> lookupPath g from to = Some (Inl OutOfBounds)"
  using assms
  by (auto simp: lookupPath_def dijkstra_shortest_paths_def Let_def split: option.splits sum.splits)

text \<open>
  C4, as the code has it: no operation tests a frame name. With a name that is not registered,
  \<open>updateSensorData\<close> has removed the edges that carry the key of the measurement when the
  null vertex reaches the library; \<open>removeAllEdges\<close> and \<open>lookupPath\<close> leave the graph as it
  is and fault as well; the vertices stay as they are.
\<close>

theorem unknown_frame_not_reported:
  assumes "from \<notin> set (vertex_names g) \<or> to \<notin> set (vertex_names g)"
  shows "updateSensorData tinv g from to sd = Inl (NullVertex, removeEdgeByKey (key sd) g)
     \<and> vertex_names (removeEdgeByKey (key sd) g) = vertex_names g
     \<and> removeAllEdges g from to = Inl (NullVertex, g)
     \<and> (lookupPath g from to = Some (Inl NullVertex) \<or> lookupPath g from to = Some (Inl OutOfBounds))"
proof -
  have u: "vertex_by_label g from = None \<or> vertex_by_label g to = None"
    using assms by (simp add: vertex_by_label_None)
  show ?thesis
    using updateSensorData_unregistered [OF u, of tinv sd] removeAllEdges_unregistered [OF u]
      lookupPath_unregistered [OF u]
    by (simp add: removeEdgeByKey_names)
qed

text \<open>The frame \<open>Z\<close> is not registered in \<open>graph_AB\<close>.\<close>

theorem unknown_frame_not_reported_witness:
  "updateSensorData uminus graph_AB ''A'' ''Z'' s2 = Inl (NullVertex, graph_AB)
   \<and> removeAllEdges graph_AB ''A'' ''Z'' = Inl (NullVertex, graph_AB)
   \<and> lookupPath graph_AB ''A'' ''Z'' = Some (Inl NullVertex)"
proof -
  have h: "''A'' \<notin> set (vertex_names graph_AB) \<or> ''Z'' \<notin> set (vertex_names graph_AB)"
    by (simp add: graph_AB_def)
  have k: "removeEdgeByKey (key s2) graph_AB = graph_AB"
    by (simp add: removeEdgeByKey_eq remove_edge_if_def RemovePredicate_def graph_AB_def s2_def)
  have l: "lookupPath graph_AB ''A'' ''Z'' \<noteq> Some (Inl OutOfBounds)"
    by (simp add: lookupPath_def dijkstra_shortest_paths_def graph_AB_def Let_def vertex_by_label_def)
  show ?thesis
    using unknown_frame_not_reported [OF h, of uminus s2] k l by simp
qed

text \<open>
  C4 as stated fails: \<open>updateSensorData\<close> between the unregistered frames \<open>X\<close> and \<open>Y\<close>
  reports no error and has changed the graph, from four edges to two.
\<close>

theorem unknown_frame_counterexample:
  "updateSensorData uminus graph_ABC ''X'' ''Y'' s1 = Inl (NullVertex, removeEdgeByKey ''s1'' graph_ABC)
   \<and> numberOfEdges graph_ABC = 4
   \<and> numberOfEdges (removeEdgeByKey ''s1'' graph_ABC) = 2"
  by (simp add: updateSensorData_unregistered vertex_by_label_def numberOfEdges_def
      removeEdgeByKey_edges graph_ABC_def s1_def)

text \<open>
  C2, at a single measurement between two frames: the measurement and its mirror are stored
  (\<open>graph_AB\<close>), \<open>lookupPath\<close> finds the direct path in both directions, and
  \<open>lookupTransform\<close> returns no transform in either direction, so there is nothing to compose.
\<close>

theorem lookupTransform_single_edge:
  "updateSensorData uminus frames_AB ''A'' ''B'' s1 = Inr graph_AB
   \<and> lookupPath graph_AB ''A'' ''B'' = Some (Inr [''A'', ''B''])
   \<and> lookupPath graph_AB ''B'' ''A'' = Some (Inr [''B'', ''A''])
   \<and> lookupTransform T0 graph_AB ''A'' ''B'' = Some (Inl MissingReturn)
   \<and> lookupTransform T0 graph_AB ''B'' ''A'' = Some (Inl MissingReturn)"
proof -
  have "lookupPath graph_AB ''A'' ''B'' = Some (Inr [''A'', ''B''])"
    "lookupPath graph_AB ''B'' ''A'' = Some (Inr [''B'', ''A''])"
    by code_simp+
  then show ?thesis
    by (simp add: build_graph_AB lookupTransform_def)
qed

text \<open>The only transform \<open>lookupTransform\<close> ever returns is the default one, on an empty path.\<close>

lemma lookupTransform_never_composes:
  assumes "lookupTransform T0 g from to = Some (Inr T)"
  shows "T = T0 \<and> lookupPath g from to = Some (Inr [])"
  using assms by (auto simp: lookupTransform_def split: option.splits sum.splits if_splits)

text \<open>
  C7 as stated fails for an unknown frame: \<open>lookupPath\<close> does not return the empty list, it
  uses the null vertex.
\<close>

theorem lookupPath_null_vertex_counterexample:
  "lookupPath graph_ABC ''A'' ''X'' = Some (Inl NullVertex)
   \<and> lookupPath graph_ABC ''X'' ''A'' = Some (Inl NullVertex)"
  by (simp add: lookupPath_def dijkstra_shortest_paths_def graph_ABC_def Let_def vertex_by_label_def)

text \<open>
  The predecessor and distance vectors have one entry for each edge, not for each vertex: with
  fewer edges than vertices the search overruns them. The spec's scenario "remove the edges
  with key \<open>s2\<close>" ends so.
\<close>

lemma undersized_maps:
  "lookupPath frames_AB ''A'' ''B'' = Some (Inl OutOfBounds)
   \<and> lookupPath (removeEdgeByKey ''s2'' graph_ABC) ''A'' ''C'' = Some (Inl OutOfBounds)"
  by (simp add: lookupPath_def dijkstra_shortest_paths_def frames_AB_eq Let_def
      removeEdgeByKey_edges removeEdgeByKey_names graph_ABC_def)

section \<open>The search and the path it gives\<close>

subsection \<open>One edge\<close>

lemma chain_tail_settled: "chain S es p s xs \<Longrightarrow> set (tl xs) \<subseteq> S"
  by (induction rule: chain.induct) auto

lemma chain_mono: "chain S es p s xs \<Longrightarrow> S \<subseteq> S' \<Longrightarrow> chain S' es p s xs"
  by (induction rule: chain.induct) (auto intro: chain.intros)

lemma chain_update: "chain S es p s xs \<Longrightarrow> v \<notin> set xs \<Longrightarrow> chain S es (p[v := u]) s xs"
proof (induction rule: chain.induct)
  case root
  show ?case by (rule chain.root)
next
  case (link u' us v')
  from link.prems have "v \<noteq> v'" "v \<notin> set (u' # us)" by auto
  then show ?case using link.IH link.hyps by (auto intro: chain.link)
qed

lemma chain_last: "chain S es p s xs \<Longrightarrow> xs \<noteq> [] \<and> last xs = s"
  by (induction rule: chain.induct) auto

lemma chain_connected: "chain S es p s xs \<Longrightarrow> (s, hd xs) \<in> (edge_rel es)\<^sup>*"
  by (induction rule: chain.induct) (auto intro: rtrancl_into_rtrancl)

lemma update_inv:
  assumes b: "base_inv es s n S st"
    and v: "v < n" "v \<notin> S" "v \<noteq> s"
    and u: "u \<in> S" "u < n" "colors st ! u \<noteq> White"
    and e: "e \<in> set es" "source e = u" "target e = v"
    and c: "colors st' = (colors st)[v := Gray]"
    and p: "predecessors st' = (predecessors st)[v := u]"
    and d: "distances st' = (distances st)[v := closed_plus (distances st ! u) (Finite (edge_weight e))]"
  shows "base_inv es s n S st'"
proof -
  have len: "length (colors st) = n" "n \<le> length (predecessors st)" "n \<le> length (distances st)"
    and s: "s < n" "predecessors st ! s = s" "colors st ! s \<noteq> White"
    using b by (auto simp: base_inv_def)
  have white: "predecessors st ! w = w \<and> distances st ! w = Infinite"
    if "w < n" "colors st ! w = White" for w
    using b that by (auto simp: base_inv_def)
  have nonwhite: "(\<exists>r. distances st ! w = Finite r)
      \<and> (\<exists>vs. chain S es (predecessors st) s (w # vs)
             \<and> (unit_weights es \<longrightarrow> distances st ! w = Finite (real (length vs))))"
    if "w < n" "colors st ! w \<noteq> White" for w
    using b that by (auto simp: base_inv_def)
  have uv: "u \<noteq> v" using u(1) v(2) by auto
  have rel: "(u, v) \<in> edge_rel es" using e by (force simp: edge_rel_def)
  have keep: "chain S es (predecessors st') s (w # vs)"
    if "chain S es (predecessors st) s (w # vs)" "w \<noteq> v" for w vs
  proof -
    have "set vs \<subseteq> S" using chain_tail_settled [OF that(1)] by simp
    then have "v \<notin> set (w # vs)" using v(2) that(2) by auto
    then show ?thesis using chain_update [OF that(1)] p by simp
  qed
  have "length (colors st') = n" "n \<le> length (predecessors st')" "n \<le> length (distances st')"
    using len c p d by auto
  moreover have "s < n" "predecessors st' ! s = s" "colors st' ! s \<noteq> White"
    using s v(3) c p by auto
  moreover have "predecessors st' ! w = w \<and> distances st' ! w = Infinite"
    if "w < n" "colors st' ! w = White" for w
  proof -
    have "w \<noteq> v" using that c len v(1) by auto
    then show ?thesis using that white [of w] c p d by auto
  qed
  moreover have "(\<exists>r. distances st' ! w = Finite r)
      \<and> (\<exists>vs. chain S es (predecessors st') s (w # vs)
             \<and> (unit_weights es \<longrightarrow> distances st' ! w = Finite (real (length vs))))"
    if "w < n" "colors st' ! w \<noteq> White" for w
  proof (cases "w = v")
    case True
    obtain r us where us: "chain S es (predecessors st) s (u # us)"
      and r: "distances st ! u = Finite r"
      and hops: "unit_weights es \<longrightarrow> distances st ! u = Finite (real (length us))"
      using nonwhite [OF u(2) u(3)] by blast
    have "chain S es (predecessors st') s (u # us)" by (rule keep [OF us uv])
    moreover have "predecessors st' ! v = u" using p len v(1) by simp
    ultimately have ch: "chain S es (predecessors st') s (v # u # us)"
      using u(1) uv rel by (intro chain.link) auto
    have dv: "distances st' ! v = Finite (r + edge_weight e)" using d len v(1) r by simp
    have "distances st' ! v = Finite (real (length (u # us)))" if "unit_weights es"
      using that hops r dv e(1) by (auto simp: unit_weights_def)
    then show ?thesis using True ch dv by blast
  next
    case False
    then have "colors st ! w \<noteq> White" using that c by simp
    from nonwhite [OF that(1) this] obtain r vs where
      "distances st ! w = Finite r" "chain S es (predecessors st) s (w # vs)"
      "unit_weights es \<longrightarrow> distances st ! w = Finite (real (length vs))" by blast
    then show ?thesis using keep [of w vs] False d by auto
  qed
  ultimately show ?thesis unfolding base_inv_def by blast
qed

lemma relax_unfold:
  "relax u e st = st
   \<or> (colors st ! target e = White \<and> \<not> distance_less (closed_plus (distances st ! u) (Finite (edge_weight e))) (distances st ! target e))
   \<or> (colors st ! target e \<noteq> Black
      \<and> distance_less (closed_plus (distances st ! u) (Finite (edge_weight e))) (distances st ! target e)
      \<and> colors (relax u e st) = (colors st)[target e := Gray]
      \<and> predecessors (relax u e st) = (predecessors st)[target e := u]
      \<and> distances (relax u e st) =
          (distances st)[target e := closed_plus (distances st ! u) (Finite (edge_weight e))])"
proof (cases "colors st ! target e")
  case White
  then show ?thesis by (simp add: relax_def Let_def)
next
  case Gray
  then have "(colors st)[target e := Gray] = colors st" by (metis list_update_id)
  then show ?thesis using Gray by (simp add: relax_def Let_def)
next
  case Black
  then show ?thesis by (simp add: relax_def Let_def)
qed

lemma relax_inner:
  assumes i: "inner_inv es s n u st"
    and e: "e \<in> set es" "source e = u" "target e < n" "0 \<le> edge_weight e"
  shows "inner_inv es s n u (relax u e st)"
proof -
  let ?v = "target e"
  let ?d = "closed_plus (distances st ! u) (Finite (edge_weight e))"
  let ?S = "insert u (blacks n st)"
  have b: "base_inv es s n ?S st" and u: "u < n" "colors st ! u = Gray"
    and su: "s = u \<or> colors st ! s = Black"
    using i by (auto simp: inner_inv_def)
  have len: "length (colors st) = n" using b by (simp add: base_inv_def)
  obtain r where r: "distances st ! u = Finite r"
    using b u by (auto simp: base_inv_def)
  have d: "?d = Finite (r + edge_weight e)" by (simp add: r)
  have bl: "blacks n (relax u e st) = blacks n st"
    using relax_colors [of u e st] by (simp add: blacks_def)
  consider (same) "relax u e st = st"
    | (white) "colors st ! ?v = White" "\<not> distance_less ?d (distances st ! ?v)"
    | (upd) "colors st ! ?v \<noteq> Black" "distance_less ?d (distances st ! ?v)"
        "colors (relax u e st) = (colors st)[?v := Gray]"
        "predecessors (relax u e st) = (predecessors st)[?v := u]"
        "distances (relax u e st) = (distances st)[?v := ?d]"
    using relax_unfold [of u e st] by blast
  then show ?thesis
  proof cases
    case same
    then show ?thesis using i by simp
  next
    case white
    have "distances st ! ?v = Infinite" using b e(3) white(1) by (auto simp: base_inv_def)
    then show ?thesis using white(2) d by simp
  next
    case upd
    have vu: "?v \<noteq> u" using upd(2) r d e(4) by auto
    have vS: "?v \<notin> ?S" using vu upd(1) by (auto simp: blacks_def)
    have vs: "?v \<noteq> s" using su vu upd(1) by auto
    have "base_inv es s n ?S (relax u e st)"
      using update_inv [OF b e(3) vS vs _ u(1) _ e(1) e(2) refl upd(3) upd(4) upd(5)] u(2) by auto
    moreover have "colors (relax u e st) ! u = Gray" using upd(3) u(2) vu by simp
    moreover have "s = u \<or> colors (relax u e st) ! s = Black" using su upd(3) vs by auto
    ultimately show ?thesis using bl u(1) by (simp add: inner_inv_def)
  qed
qed

subsection \<open>One round and the whole loop\<close>

lemma relax_keeps_nonwhite:
  "colors st ! i \<noteq> White \<Longrightarrow> colors (relax u e st) ! i \<noteq> White"
  by (cases "i = target e"; cases "target e < length (colors st)")
    (auto simp: relax_def Let_def list_update_beyond)

lemma relax_target_nonwhite:
  "target e < length (colors st) \<Longrightarrow> colors (relax u e st) ! target e \<noteq> White"
  by (auto simp: relax_def Let_def)

lemma fold_relax_keeps_nonwhite:
  "colors st ! i \<noteq> White \<Longrightarrow> colors (fold (relax u) xs st) ! i \<noteq> White"
  by (induction xs arbitrary: st) (auto simp: relax_keeps_nonwhite)

lemma fold_relax_targets:
  "\<forall>e\<in>set xs. target e < length (colors st) \<Longrightarrow>
   \<forall>e\<in>set xs. colors (fold (relax u) xs st) ! target e \<noteq> White"
proof (induction xs arbitrary: st)
  case Nil
  show ?case by simp
next
  case (Cons x xs)
  have len: "length (colors (relax u x st)) = length (colors st)"
    using relax_colors [of u x st] by simp
  have "colors (relax u x st) ! target x \<noteq> White"
    using Cons.prems by (simp add: relax_target_nonwhite)
  then have "colors (fold (relax u) xs (relax u x st)) ! target x \<noteq> White"
    by (rule fold_relax_keeps_nonwhite)
  moreover have "\<forall>e\<in>set xs. colors (fold (relax u) xs (relax u x st)) ! target e \<noteq> White"
    using Cons.IH [of "relax u x st"] Cons.prems len by simp
  ultimately show ?case by simp
qed

lemma fold_relax_inner:
  assumes "inner_inv es s n u st"
    and "\<forall>e\<in>set xs. e \<in> set es \<and> source e = u \<and> target e < n \<and> 0 \<le> edge_weight e"
  shows "inner_inv es s n u (fold (relax u) xs st)"
  using assms
proof (induction xs arbitrary: st)
  case Nil
  then show ?case by simp
next
  case (Cons x xs)
  have "inner_inv es s n u (relax u x st)"
    using relax_inner [OF Cons.prems(1), of x] Cons.prems(2) by simp
  then show ?case using Cons.IH [of "relax u x st"] Cons.prems(2) by simp
qed

lemma queue_top_None: "queue_top d vs = None \<Longrightarrow> vs = []"
  by (cases vs) (auto split: option.splits if_splits)

lemma loop_inv_pick:
  assumes l: "loop_inv es s n st" and t: "queue_top (distances st) (gray_vertices st) = Some u"
  shows "inner_inv es s n u st"
proof -
  have b: "base_inv es s n (blacks n st) st" using l by (simp add: loop_inv_def)
  have len: "length (colors st) = n" using b by (simp add: base_inv_def)
  have u: "u < n" "colors st ! u = Gray"
    using queue_top_mem [OF t] len by (auto simp: gray_vertices_def)
  have "s = u \<or> colors st ! s = Black"
    using l u by (auto simp: loop_inv_def)
  moreover have "base_inv es s n (insert u (blacks n st)) st"
    using b chain_mono [where S = "blacks n st" and S' = "insert u (blacks n st)"]
    unfolding base_inv_def by blast
  ultimately show ?thesis using u by (simp add: inner_inv_def)
qed

lemma examine_loop_inv:
  assumes l: "loop_inv es s n st" and t: "queue_top (distances st) (gray_vertices st) = Some u"
    and wf: "wf_edges n es"
  shows "loop_inv es s n (examine es u st)"
proof -
  let ?xs = "out_edges es u"
  let ?st = "fold (relax u) ?xs st"
  let ?fin = "examine es u st"
  have i0: "inner_inv es s n u st" by (rule loop_inv_pick [OF l t])
  have xs: "\<forall>e\<in>set ?xs. e \<in> set es \<and> source e = u \<and> target e < n \<and> 0 \<le> edge_weight e"
    using wf by (auto simp: out_edges_def wf_edges_def)
  have i: "inner_inv es s n u ?st" by (rule fold_relax_inner [OF i0 xs])
  have b: "base_inv es s n (insert u (blacks n ?st)) ?st" and u: "u < n" "colors ?st ! u = Gray"
    and su: "s = u \<or> colors ?st ! s = Black"
    using i by (auto simp: inner_inv_def)
  have len0: "length (colors st) = n" using l by (simp add: loop_inv_def base_inv_def)
  have len: "length (colors ?st) = n" using b by (simp add: base_inv_def)
  have fin: "colors ?fin = (colors ?st)[u := Black]" "predecessors ?fin = predecessors ?st"
    "distances ?fin = distances ?st"
    by (simp_all add: examine_def Let_def)
  have white_iff: "colors ?fin ! w = White \<longleftrightarrow> colors ?st ! w = White" if "w < n" for w
    using fin(1) u len that by (cases "w = u") auto
  have bl: "blacks n ?fin = insert u (blacks n ?st)"
    using fin(1) u len by (auto simp: blacks_def nth_list_update)
  have base: "base_inv es s n (blacks n ?fin) ?fin"
    using b white_iff len unfolding base_inv_def bl fin(2) fin(3)
    by (simp add: fin(1))
  have s_black: "colors ?fin ! s = Black"
  proof (cases "s = u")
    case True
    then show ?thesis using fin(1) u len by simp
  next
    case False
    then show ?thesis using su fin(1) by simp
  qed
  have closed: "colors ?fin ! target e \<noteq> White"
    if e: "e \<in> set es" and src: "colors ?fin ! source e = Black" for e
  proof -
    have te: "target e < n" and se: "source e < n" using wf e by (auto simp: wf_edges_def)
    have "colors ?st ! target e \<noteq> White"
    proof (cases "source e = u")
      case True
      then have "e \<in> set ?xs" using e by (simp add: out_edges_def)
      moreover have "\<forall>e\<in>set ?xs. target e < length (colors st)" using xs len0 by simp
      ultimately show ?thesis using fold_relax_targets [of ?xs st u] by blast
    next
      case False
      then have "colors ?st ! source e = Black" using src fin(1) by simp
      then have "colors st ! source e = Black"
        using fold_relax_colors [of u ?xs st] by simp
      then have "colors st ! target e \<noteq> White" using l e by (auto simp: loop_inv_def)
      then show ?thesis by (rule fold_relax_keeps_nonwhite)
    qed
    then show ?thesis using white_iff [OF te] by simp
  qed
  show ?thesis using base s_black closed by (simp add: loop_inv_def)
qed

lemma dijkstra_loop_inv:
  assumes "loop_inv es s n st" and "wf_edges n es"
  shows "loop_inv es s n (dijkstra_loop es st)
     \<and> gray_vertices (dijkstra_loop es st) = []"
  using assms
proof (induction es st rule: dijkstra_loop.induct)
  case (1 es st)
  show ?case
  proof (cases "queue_top (distances st) (gray_vertices st)")
    case None
    then have "dijkstra_loop es st = st" by (subst dijkstra_loop.simps) simp
    then show ?thesis using "1.prems"(1) queue_top_None [OF None] by simp
  next
    case (Some u)
    then have eq: "dijkstra_loop es st = dijkstra_loop es (examine es u st)"
      by (subst dijkstra_loop.simps) simp
    have "loop_inv es s n (examine es u st)"
      by (rule examine_loop_inv [OF "1.prems"(1) Some "1.prems"(2)])
    then show ?thesis using "1.IH" [OF Some] "1.prems"(2) eq by simp
  qed
qed

lemma init_loop_inv:
  assumes "s < nv" "nv \<le> n" "wf_edges nv es"
  shows "loop_inv es s nv
     \<lparr>colors = (replicate nv White)[s := Gray],
      distances = (replicate nv Infinite @ replicate (n - nv) (Finite 0))[s := Finite 0],
      predecessors = [0..<nv] @ replicate (n - nv) 0\<rparr>"
proof -
  have c: "((replicate nv White)[s := Gray]) ! v = (if v = s then Gray else White)" if "v < nv" for v
    using that assms by (simp add: nth_list_update)
  have d: "((replicate nv Infinite @ replicate (n - nv) (Finite 0))[s := Finite 0]) ! v
      = (if v = s then Finite 0 else Infinite)" if "v < nv" for v
    using that assms by (simp add: nth_list_update nth_append)
  have p: "([0..<nv] @ replicate (n - nv) 0) ! v = v" if "v < nv" for v
    using that by (simp add: nth_append)
  have "colors \<lparr>colors = (replicate nv White)[s := Gray],
      distances = (replicate nv Infinite @ replicate (n - nv) (Finite 0))[s := Finite 0],
      predecessors = [0..<nv] @ replicate (n - nv) 0\<rparr> ! source e \<noteq> Black" if "e \<in> set es" for e
    using that assms(3) c [of "source e"] by (auto simp: wf_edges_def)
  then show ?thesis
    unfolding loop_inv_def base_inv_def
    using assms(1,2) c d p by (auto intro: chain.root)
qed

subsection \<open>When the search has finished\<close>

lemma no_gray:
  assumes "gray_vertices st = []" "v < length (colors st)"
  shows "colors st ! v \<noteq> Gray"
  using assms by (auto simp: gray_vertices_def filter_empty_conv)

lemma finished_reaches:
  assumes l: "loop_inv es s n st" and g: "gray_vertices st = []" and wf: "wf_edges n es"
    and r: "(s, t) \<in> (edge_rel es)\<^sup>*"
  shows "t < n \<and> colors st ! t = Black"
  using r
proof (induction rule: rtrancl_induct)
  case base
  have "s < n" "colors st ! s \<noteq> White" "length (colors st) = n"
    using l by (auto simp: loop_inv_def base_inv_def)
  then show ?case using no_gray [OF g, of s] by (cases "colors st ! s") auto
next
  case (step y z)
  then obtain e where e: "e \<in> set es" "source e = y" "target e = z"
    by (auto simp: edge_rel_def)
  have z: "z < n" using wf e by (auto simp: wf_edges_def)
  have "colors st ! z \<noteq> White" using l e step.IH by (auto simp: loop_inv_def)
  moreover have "length (colors st) = n" using l by (simp add: loop_inv_def base_inv_def)
  ultimately show ?case using z no_gray [OF g, of z] by (cases "colors st ! z") auto
qed

lemma finished_chain:
  assumes l: "loop_inv es s n st" and t: "t < n"
  shows "(colors st ! t \<noteq> White \<longrightarrow>
            (\<exists>vs. chain (blacks n st) es (predecessors st) s (t # vs)
               \<and> (unit_weights es \<longrightarrow> distances st ! t = Finite (real (length vs)))))
     \<and> (colors st ! t = White \<longrightarrow> predecessors st ! t = t)
     \<and> predecessors st ! s = s \<and> n \<le> length (predecessors st)"
  using l t by (auto simp: loop_inv_def base_inv_def)

lemma edge_found:
  assumes "(u, v) \<in> edge_rel es"
  shows "\<exists>e. edge es u v = Some e \<and> source e = u \<and> target e = v"
proof (cases "edge es u v")
  case None
  then show ?thesis using assms by (auto simp: edge_def find_None_iff edge_rel_def)
next
  case (Some e)
  then show ?thesis by (auto simp: edge_def find_Some_iff)
qed

lemma walk_chain:
  assumes "chain S es p s xs" "p ! s = s" "\<forall>x\<in>set xs. x < length p"
  shows "\<exists>path. walk p es (p ! hd xs) (hd xs) acc = Some (Inr (acc @ path))
     \<and> map target path = butlast xs \<and> map source path = tl xs"
  using assms
proof (induction arbitrary: acc rule: chain.induct)
  case root
  have "walk p es (p ! s) s acc = Some (Inr acc)"
    using root.prems(1) by (subst walk.simps) simp
  then show ?case by simp
next
  case (link u us v)
  obtain e where e: "edge es u v = Some e" "source e = u" "target e = v"
    using edge_found [OF link.hyps(5)] by blast
  have u: "u < length p" using link.prems(2) by simp
  have "walk p es (p ! v) v acc = walk p es (p ! u) u (acc @ [e])"
    using link.hyps(3,4) u e(1) by (subst walk.simps) simp
  moreover obtain path where
    "walk p es (p ! hd (u # us)) (hd (u # us)) (acc @ [e]) = Some (Inr ((acc @ [e]) @ path))"
    "map target path = butlast (u # us)" "map source path = tl (u # us)"
    using link.IH [of "acc @ [e]"] link.prems by auto
  ultimately have "walk p es (p ! hd (v # u # us)) (hd (v # u # us)) acc = Some (Inr (acc @ (e # path)))
     \<and> map target (e # path) = butlast (v # u # us) \<and> map source (e # path) = tl (v # u # us)"
    using e by simp
  then show ?case by blast
qed

lemma chain_successively:
  "chain S es p s xs \<Longrightarrow> successively (\<lambda>b a. (a, b) \<in> edge_rel es) xs"
  by (induction rule: chain.induct) auto

lemma verticesInPath_eq:
  "xs \<noteq> [] \<Longrightarrow> verticesInPath names xs = names ! source (hd xs) # map (\<lambda>e. names ! target e) xs"
  by (cases xs) auto

lemma verticesInPath_chain:
  assumes "map target path = butlast (t # vs)" "map source path = vs" "vs \<noteq> []"
  shows "verticesInPath names (rev path) = map (\<lambda>v. names ! v) (rev (t # vs))"
proof -
  have ne: "path \<noteq> []" using assms(2,3) by auto
  have "source (hd (rev path)) = last vs"
    using assms(2) ne by (metis hd_rev last_map)
  moreover have "map (\<lambda>e. names ! target e) (rev path) = map (\<lambda>v. names ! v) (rev (butlast (t # vs)))"
  proof -
    have "map (\<lambda>e. names ! target e) (rev path) = map (\<lambda>v. names ! v) (rev (map target path))"
      by (simp add: rev_map)
    then show ?thesis by (simp only: assms(1))
  qed
  moreover have "rev (t # vs) = last vs # rev (butlast (t # vs))"
  proof -
    have "butlast (t # vs) @ [last vs] = t # vs" using assms(3) by simp
    then have "rev (t # vs) = rev (butlast (t # vs) @ [last vs])" by (rule arg_cong [OF sym])
    then show ?thesis by (simp only: rev_append rev.simps append.simps)
  qed
  ultimately show ?thesis using ne by (simp add: verticesInPath_eq)
qed

lemma reachable_wf: "reachable tinv g \<Longrightarrow> wf_edges (length (vertex_names g)) (edge_list g)"
proof (induction rule: reachable.induct)
  case initial
  show ?case by (simp add: empty_graph_def wf_edges_def)
next
  case (entity g name)
  then show ?case by (auto simp: addEntity_def wf_edges_def)
next
  case (sensor g "from" to sensorData g')
  from updateSensorData_Inr [OF sensor.hyps(2)] obtain a b where
    ab: "vertex_by_label g from = Some a" "vertex_by_label g to = Some b"
    and g': "g' = g\<lparr>edge_list := filter (\<lambda>e. info_key (edge_info e) \<noteq> key sensorData) (edge_list g) @
        [\<lparr>source = a, target = b, edge_weight = 1, edge_info = EdgeInfo (key sensorData) (transform sensorData)\<rparr>,
         \<lparr>source = b, target = a, edge_weight = 1, edge_info = EdgeInfo (key sensorData) (tinv (transform sensorData))\<rparr>]\<rparr>"
    by blast
  have "a < length (vertex_names g)" "b < length (vertex_names g)"
    using vertex_by_label_Some ab by blast+
  then show ?case using sensor.IH g' by (auto simp: wf_edges_def)
next
  case (removed g "from" to g')
  then show ?case using removeAllEdges_Inr [OF removed.hyps(2)] by (auto simp: wf_edges_def)
next
  case (removed_key g k)
  then show ?case by (auto simp: removeEdgeByKey_edges removeEdgeByKey_names wf_edges_def)
qed

lemma search_finished:
  assumes wf: "wf_edges (length (vertex_names g)) (edge_list g)"
    and n: "length (vertex_names g) \<le> n"
    and s: "s < length (vertex_names g)"
  shows "\<exists>st. dijkstra_shortest_paths g (Some s) n = Inr st
     \<and> loop_inv (edge_list g) s (length (vertex_names g)) st \<and> gray_vertices st = []"
proof -
  let ?init = "\<lparr>colors = (replicate (length (vertex_names g)) White)[s := Gray],
      distances = (replicate (length (vertex_names g)) Infinite
                   @ replicate (n - length (vertex_names g)) (Finite 0))[s := Finite 0],
      predecessors = [0..<length (vertex_names g)] @ replicate (n - length (vertex_names g)) 0\<rparr>"
  have "loop_inv (edge_list g) s (length (vertex_names g)) ?init"
    by (rule init_loop_inv [OF s n wf])
  then have "loop_inv (edge_list g) s (length (vertex_names g)) (dijkstra_loop (edge_list g) ?init)
     \<and> gray_vertices (dijkstra_loop (edge_list g) ?init) = []"
    by (rule dijkstra_loop_inv [OF _ wf])
  moreover have "dijkstra_shortest_paths g (Some s) n = Inr (dijkstra_loop (edge_list g) ?init)"
    using n by (simp add: dijkstra_shortest_paths_def Let_def)
  ultimately show ?thesis by simp
qed

lemma lookupPath_connected:
  assumes wf: "wf_edges (length (vertex_names g)) (edge_list g)"
    and n: "length (vertex_names g) \<le> length (edge_list g)"
    and s: "vertex_by_label g from = Some s" and t: "vertex_by_label g to = Some t"
    and st: "s \<noteq> t" and r: "(s, t) \<in> (edge_rel (edge_list g))\<^sup>*"
  shows "\<exists>ws. lookupPath g from to = Some (Inr (map (\<lambda>v. vertex_names g ! v) ws))
     \<and> hd ws = s \<and> last ws = t \<and> 2 \<le> length ws
     \<and> successively (\<lambda>a b. (a, b) \<in> edge_rel (edge_list g)) ws
     \<and> (unit_weights (edge_list g) \<longrightarrow>
          goal_distance g from to = Some (Finite (real (length ws - 1))))"
proof -
  let ?es = "edge_list g" and ?nv = "length (vertex_names g)"
  have sn: "s < ?nv" and tn: "t < ?nv" using vertex_by_label_Some s t by blast+
  obtain fin where fin: "dijkstra_shortest_paths g (Some s) (length ?es) = Inr fin"
    "loop_inv ?es s ?nv fin" "gray_vertices fin = []"
    using search_finished [OF wf n sn] by blast
  let ?p = "predecessors fin"
  have "colors fin ! t = Black" using finished_reaches [OF fin(2,3) wf r] by simp
  then obtain vs where ch: "chain (blacks ?nv fin) ?es ?p s (t # vs)"
    and hops: "unit_weights ?es \<longrightarrow> distances fin ! t = Finite (real (length vs))"
    and ps: "?p ! s = s" and len: "?nv \<le> length ?p"
    using finished_chain [OF fin(2) tn] by auto
  have last: "last (t # vs) = s" using chain_last [OF ch] by simp
  have vs: "vs \<noteq> []" using last st by auto
  have "set vs \<subseteq> blacks ?nv fin" using chain_tail_settled [OF ch] by simp
  then have "\<forall>x\<in>set (t # vs). x < length ?p" using tn len by (auto simp: blacks_def)
  from walk_chain [OF ch ps this, of "[]"] obtain path where
    path: "walk ?p ?es (?p ! t) t [] = Some (Inr path)"
      "map target path = butlast (t # vs)" "map source path = vs"
    by auto
  let ?ws = "rev (t # vs)"
  have "lookupPath g from to = Some (Inr (verticesInPath (vertex_names g) (rev path)))"
    using s t fin(1) path(1) by (simp add: lookupPath_def Let_def)
  then have "lookupPath g from to = Some (Inr (map (\<lambda>v. vertex_names g ! v) ?ws))"
    using verticesInPath_chain [OF path(2,3) vs] by simp
  moreover have "hd ?ws = s" using last hd_rev [of "t # vs"] by simp
  moreover have "last ?ws = t" by simp
  moreover have "2 \<le> length ?ws" using vs by (cases vs) auto
  moreover have "successively (\<lambda>a b. (a, b) \<in> edge_rel ?es) ?ws"
    using chain_successively [OF ch] by (simp only: successively_rev)
  moreover have "goal_distance g from to = Some (Finite (real (length ?ws - 1)))"
    if "unit_weights ?es"
    using that hops s t fin(1) by (simp add: goal_distance_def)
  ultimately show ?thesis by blast
qed

lemma lookupPath_not_connected:
  assumes wf: "wf_edges (length (vertex_names g)) (edge_list g)"
    and n: "length (vertex_names g) \<le> length (edge_list g)"
    and s: "vertex_by_label g from = Some s" and t: "vertex_by_label g to = Some t"
    and r: "s = t \<or> (s, t) \<notin> (edge_rel (edge_list g))\<^sup>*"
  shows "lookupPath g from to = Some (Inr [])"
proof -
  let ?es = "edge_list g" and ?nv = "length (vertex_names g)"
  have sn: "s < ?nv" and tn: "t < ?nv" using vertex_by_label_Some s t by blast+
  obtain fin where fin: "dijkstra_shortest_paths g (Some s) (length ?es) = Inr fin"
    "loop_inv ?es s ?nv fin" "gray_vertices fin = []"
    using search_finished [OF wf n sn] by blast
  let ?p = "predecessors fin"
  have "?p ! t = t"
  proof (cases "s = t")
    case True
    then show ?thesis using finished_chain [OF fin(2) tn] by simp
  next
    case False
    then have nr: "(s, t) \<notin> (edge_rel ?es)\<^sup>*" using r by simp
    have "colors fin ! t = White"
    proof (rule ccontr)
      assume "colors fin ! t \<noteq> White"
      then obtain vs where "chain (blacks ?nv fin) ?es ?p s (t # vs)"
        using finished_chain [OF fin(2) tn] by auto
      then show False using chain_connected nr by fastforce
    qed
    then show ?thesis using finished_chain [OF fin(2) tn] by simp
  qed
  then have "walk ?p ?es (?p ! t) t [] = Some (Inr [])" by (subst walk.simps) simp
  then show ?thesis using s t fin(1) by (simp add: lookupPath_def Let_def)
qed


text \<open>
  C7, as the code has it, in a graph the operations build and that has at least as many edges
  as vertices (with fewer, the vectors of the search are too short; nothing is said of that
  case here). For registered frames with the vertices \<open>s\<close> and \<open>t\<close>: when they differ and edges
  lead from \<open>s\<close> to \<open>t\<close>, \<open>lookupPath\<close> returns the names along a list of vertices that begins
  with \<open>s\<close>, ends with \<open>t\<close> and goes from each vertex to the next by an edge, so the list of names
  begins with \<open>from\<close> and ends with \<open>to\<close>; when no edges lead from \<open>s\<close> to \<open>t\<close>, or \<open>s\<close> is \<open>t\<close>,
  it returns the empty list. For a frame that is not registered it returns no list: it uses
  the null vertex.
\<close>

theorem lookupPath_registered_frames:
  assumes "reachable tinv g" and "length (vertex_names g) \<le> length (edge_list g)"
  shows "(\<forall>s t. vertex_by_label g from = Some s \<and> vertex_by_label g to = Some t \<longrightarrow>
            (s \<noteq> t \<and> (s, t) \<in> (edge_rel (edge_list g))\<^sup>* \<longrightarrow>
               (\<exists>ws. lookupPath g from to = Some (Inr (map (\<lambda>v. vertex_names g ! v) ws))
                  \<and> hd ws = s \<and> last ws = t \<and> 2 \<le> length ws
                  \<and> successively (\<lambda>a b. (a, b) \<in> edge_rel (edge_list g)) ws
                  \<and> hd (map (\<lambda>v. vertex_names g ! v) ws) = from
                  \<and> last (map (\<lambda>v. vertex_names g ! v) ws) = to))
            \<and> (s = t \<or> (s, t) \<notin> (edge_rel (edge_list g))\<^sup>* \<longrightarrow>
                 lookupPath g from to = Some (Inr [])))
     \<and> (from \<notin> set (vertex_names g) \<or> to \<notin> set (vertex_names g) \<longrightarrow>
          lookupPath g from to = Some (Inl NullVertex))"
proof -
  have wf: "wf_edges (length (vertex_names g)) (edge_list g)" by (rule reachable_wf [OF assms(1)])
  have "\<exists>ws. lookupPath g from to = Some (Inr (map (\<lambda>v. vertex_names g ! v) ws))
       \<and> hd ws = s \<and> last ws = t \<and> 2 \<le> length ws
       \<and> successively (\<lambda>a b. (a, b) \<in> edge_rel (edge_list g)) ws
       \<and> hd (map (\<lambda>v. vertex_names g ! v) ws) = from
       \<and> last (map (\<lambda>v. vertex_names g ! v) ws) = to"
    if s: "vertex_by_label g from = Some s" and t: "vertex_by_label g to = Some t"
      and c: "s \<noteq> t" "(s, t) \<in> (edge_rel (edge_list g))\<^sup>*" for s t
  proof -
    obtain ws where ws: "lookupPath g from to = Some (Inr (map (\<lambda>v. vertex_names g ! v) ws))"
      "hd ws = s" "last ws = t" "2 \<le> length ws"
      "successively (\<lambda>a b. (a, b) \<in> edge_rel (edge_list g)) ws"
      using lookupPath_connected [OF wf assms(2) s t c] by blast
    have ne: "ws \<noteq> []" using ws(4) by auto
    have "hd (map (\<lambda>v. vertex_names g ! v) ws) = from"
      using ne ws(2) vertex_by_label_Some [OF s] by (simp add: hd_map)
    moreover have "last (map (\<lambda>v. vertex_names g ! v) ws) = to"
      using ne ws(3) vertex_by_label_Some [OF t] by (simp add: last_map)
    ultimately show ?thesis using ws by blast
  qed
  moreover have "lookupPath g from to = Some (Inr [])"
    if "vertex_by_label g from = Some s" "vertex_by_label g to = Some t"
      "s = t \<or> (s, t) \<notin> (edge_rel (edge_list g))\<^sup>*" for s t
    using lookupPath_not_connected [OF wf assms(2) that] .
  moreover have "lookupPath g from to = Some (Inl NullVertex)"
    if "from \<notin> set (vertex_names g) \<or> to \<notin> set (vertex_names g)"
  proof -
    have "vertex_by_label g from = None \<or> vertex_by_label g to = None"
      using that by (simp add: vertex_by_label_None)
    then show ?thesis
      using assms(2)
      by (auto simp: lookupPath_def dijkstra_shortest_paths_def Let_def split: option.splits sum.splits)
  qed
  ultimately show ?thesis by blast
qed

text \<open>
  In \<open>graph_ABC\<close> the path from \<open>A\<close> to \<open>C\<close> goes over \<open>B\<close>; in \<open>graph_AB_twice\<close> nothing
  leads to \<open>C\<close>; \<open>X\<close> is no frame.
\<close>

lemma reachable_graph_AB_twice: "reachable uminus graph_AB_twice"
proof -
  have "\<exists>g. updateSensorData uminus frames_ABC ''A'' ''B'' s1 = Inr g
     \<and> updateSensorData uminus g ''A'' ''B'' s2 = Inr graph_AB_twice"
    by (simp add: updateSensorData_registered [where a = 0 and b = 1] frames_ABC_eq
        vertex_by_label_def s1_def s2_def graph_AB_twice_def)
  then obtain g where g: "updateSensorData uminus frames_ABC ''A'' ''B'' s1 = Inr g"
    "updateSensorData uminus g ''A'' ''B'' s2 = Inr graph_AB_twice"
    by blast
  show ?thesis
    by (rule reachable.sensor [OF reachable.sensor [OF reachable_frames_ABC g(1)] g(2)])
qed

theorem lookupPath_registered_frames_witness:
  "(\<exists>ws. lookupPath graph_ABC ''A'' ''C'' = Some (Inr (map (\<lambda>v. vertex_names graph_ABC ! v) ws))
      \<and> hd ws = 0 \<and> last ws = 2
      \<and> successively (\<lambda>a b. (a, b) \<in> edge_rel (edge_list graph_ABC)) ws)
   \<and> lookupPath graph_ABC ''A'' ''C'' = Some (Inr [''A'', ''B'', ''C''])
   \<and> lookupPath graph_AB_twice ''A'' ''C'' = Some (Inr [])
   \<and> lookupPath graph_ABC ''A'' ''X'' = Some (Inl NullVertex)"
proof -
  have size: "length (vertex_names graph_ABC) \<le> length (edge_list graph_ABC)"
    "length (vertex_names graph_AB_twice) \<le> length (edge_list graph_AB_twice)"
    by (simp_all add: graph_ABC_def graph_AB_twice_def)
  have v: "vertex_by_label graph_ABC ''A'' = Some 0 \<and> vertex_by_label graph_ABC ''C'' = Some 2"
    "vertex_by_label graph_AB_twice ''A'' = Some 0 \<and> vertex_by_label graph_AB_twice ''C'' = Some 2"
    by (simp_all add: vertex_by_label_def graph_ABC_def graph_AB_twice_def)
  have "(0, 1) \<in> edge_rel (edge_list graph_ABC)" "(1, 2) \<in> edge_rel (edge_list graph_ABC)"
    by (simp_all add: edge_rel_def graph_ABC_def)
  then have con: "(0::nat) \<noteq> 2 \<and> (0, 2) \<in> (edge_rel (edge_list graph_ABC))\<^sup>*"
    by (meson r_into_rtrancl rtrancl_trans zero_neq_numeral)
  have "x = 0 \<or> x = 1" if "(0, x) \<in> (edge_rel (edge_list graph_AB_twice))\<^sup>*" for x
    using that by (induction rule: rtrancl_induct) (auto simp: edge_rel_def graph_AB_twice_def)
  then have dis: "(0, 2) \<notin> (edge_rel (edge_list graph_AB_twice))\<^sup>*" by fastforce
  have x: "''A'' \<notin> set (vertex_names graph_ABC) \<or> ''X'' \<notin> set (vertex_names graph_ABC)"
    by (simp add: graph_ABC_def)
  have "lookupPath graph_ABC ''A'' ''C'' = Some (Inr [''A'', ''B'', ''C''])" by code_simp
  then show ?thesis
    using lookupPath_registered_frames [OF reachable_graph_ABC size(1), of "''A''" "''C''"]
      lookupPath_registered_frames [OF reachable_graph_AB_twice size(2), of "''A''" "''C''"]
      lookupPath_registered_frames [OF reachable_graph_ABC size(1), of "''A''" "''X''"]
      v con dis x
    by blast
qed

section \<open>The weight of the edges\<close>

lemma reachable_unit_weights: "reachable tinv g \<Longrightarrow> unit_weights (edge_list g)"
  using reachable_weights by (auto simp: unit_weights_def)

lemma lookupPath_Inr_registered:
  assumes "lookupPath g from to = Some (Inr path)"
  shows "\<exists>s t. vertex_by_label g from = Some s \<and> vertex_by_label g to = Some t"
  using assms
  by (auto simp: lookupPath_def dijkstra_shortest_paths_def Let_def
      split: option.splits sum.splits if_splits)

lemma found_path_distance:
  assumes r: "reachable tinv g" and n: "length (vertex_names g) \<le> length (edge_list g)"
    and l: "lookupPath g from to = Some (Inr path)" and p: "path \<noteq> []"
  shows "goal_distance g from to = Some (Finite (real (length path - 1)))"
proof -
  have wf: "wf_edges (length (vertex_names g)) (edge_list g)" by (rule reachable_wf [OF r])
  obtain s t where s: "vertex_by_label g from = Some s" and t: "vertex_by_label g to = Some t"
    using lookupPath_Inr_registered [OF l] by blast
  have c: "s \<noteq> t" "(s, t) \<in> (edge_rel (edge_list g))\<^sup>*"
    using lookupPath_not_connected [OF wf n s t] l p by auto
  obtain ws where "lookupPath g from to = Some (Inr (map (\<lambda>v. vertex_names g ! v) ws))"
    "unit_weights (edge_list g) \<longrightarrow> goal_distance g from to = Some (Finite (real (length ws - 1)))"
    using lookupPath_connected [OF wf n s t c] by blast
  then show ?thesis using l reachable_unit_weights [OF r] by auto
qed

text \<open>
  C10: in every graph the operations build, every edge has the weight 1, whatever the weight
  of the measurement was; so the cost of a path, the sum of the weights of its edges, is the
  number of its edges; every edge of the graph after a further \<open>updateSensorData\<close> has the
  weight 1 again; and the cost the search finds for the goal of a path it returns is the number
  of hops of that path.
\<close>

theorem edge_weight_always_one:
  assumes "reachable tinv g"
  shows "(\<forall>e\<in>set (edge_list g). edge_weight e = 1)
     \<and> (\<forall>es. set es \<subseteq> set (edge_list g) \<longrightarrow> path_cost es = real (length es))
     \<and> (\<forall>from to sd g'. updateSensorData tinv g from to sd = Inr g' \<longrightarrow>
          (\<forall>e\<in>set (edge_list g'). edge_weight e = 1))
     \<and> (\<forall>from to path. length (vertex_names g) \<le> length (edge_list g)
          \<and> lookupPath g from to = Some (Inr path) \<and> path \<noteq> [] \<longrightarrow>
          goal_distance g from to = Some (Finite (real (length path - 1))))"
proof -
  have w: "\<forall>e\<in>set (edge_list g). edge_weight e = 1" by (rule reachable_weights [OF assms])
  have "path_cost es = real (length es)" if "set es \<subseteq> set (edge_list g)" for es
    using that w by (intro path_cost_ones) blast
  moreover have "\<forall>e\<in>set (edge_list g'). edge_weight e = 1"
    if "updateSensorData tinv g from to sd = Inr g'" for "from" to sd g'
    using reachable_weights [OF reachable.sensor [OF assms that]] .
  moreover have "goal_distance g from to = Some (Finite (real (length path - 1)))"
    if "length (vertex_names g) \<le> length (edge_list g)"
      "lookupPath g from to = Some (Inr path)" "path \<noteq> []" for "from" to path
    using found_path_distance [OF assms that] .
  ultimately show ?thesis using w by blast
qed

text \<open>
  The measurements \<open>s1\<close> and \<open>s2\<close> have the weights 3 and 1/2; the edges of \<open>graph_ABC\<close>
  have the weight 1, the path from \<open>A\<close> over \<open>B\<close> to \<open>C\<close> costs 2, and 2 is the distance the
  search finds.
\<close>

theorem edge_weight_always_one_witness:
  "edge_weight (edge_list graph_ABC ! 2) = 1
   \<and> path_cost [edge_list graph_ABC ! 0, edge_list graph_ABC ! 2] = 2
   \<and> goal_distance graph_ABC ''A'' ''C'' = Some (Finite 2)"
proof -
  have l: "lookupPath graph_ABC ''A'' ''C'' = Some (Inr [''A'', ''B'', ''C''])" by code_simp
  have n: "length (vertex_names graph_ABC) \<le> length (edge_list graph_ABC)"
    by (simp add: graph_ABC_def)
  have "goal_distance graph_ABC ''A'' ''C'' = Some (Finite (real (length [''A'', ''B'', ''C''] - 1)))"
    using edge_weight_always_one [OF reachable_graph_ABC] n l by blast
  then show ?thesis by (simp add: graph_ABC_def path_cost_def)
qed

end
